theory Spec2Isabelle
  imports
    Main
    "HOL-Library.Char_ord"
    "HOL-Library.List_Lexorder"
    "HOL-Library.Sublist"
    "HOL-Library.AList"
    "HOL-Library.Multiset"
begin

section \<open>Values of the parsed configuration\<close>

text \<open>
  The configuration held in \<^verbatim>\<open>ConfigurationCore.config\<close> is whatever
  \<^verbatim>\<open>yaml.safe_load\<close> returned: \<^verbatim>\<open>None\<close>, a bool, an int, a str, a list or a dict.
  A dict keeps its insertion order, so it is an association list; its keys are
  strings, as the specification assumes of the deserializer. Floating-point and
  date scalars are left out of the model.
\<close>

datatype pyval =
    VNone
  | VBool bool
  | VInt int
  | VStr string
  | VList "pyval list"
  | VDict "(string \<times> pyval) list"

text \<open>
  What a call can end with instead of a value. \<^verbatim>\<open>cli_ui.fatal\<close> prints its message
  and calls \<^verbatim>\<open>sys.exit\<close>; the four calls of it in \<^verbatim>\<open>core.py\<close> are told apart by
  the names the specification gives them. \<open>NotModelled\<close> marks the one place
  where the library \<^verbatim>\<open>mergedeep\<close> would build a dict with integer keys.
\<close>

datatype fatal =
    ConfigSourceConflict
  | ExampleConfigDetected
  | UnsupportedConfigVersion
  | AlmostDuplicateKeys string "string list"

datatype failure =
    KeyNotFoundException
  | ConfigFileNotFoundException string
  | ConfigInvalidException
  | SystemExit fatal
  | TypeError
  | AttributeError
  | ValueError
  | NotModelled

section \<open>Strings\<close>

text \<open>
  A string is the list of its characters. \<^verbatim>\<open>str.lower()\<close> is a built-in of Python,
  not code of this repository: it knows the case mappings of all of Unicode and
  can change the length of a string. Every function below that calls it takes it
  as its first argument, \<open>lower\<close>, and what is proved of such a function is proved
  for every \<open>lower\<close>, under the properties of \<open>lower\<close> that the statement names.
\<close>

text \<open>On a string of ASCII characters \<^verbatim>\<open>str.lower()\<close> moves the capital letters
  \<^verbatim>\<open>A\<close> to \<^verbatim>\<open>Z\<close> and nothing else; \<open>ascii_lower\<close> does that to every string.
  It serves to say what \<open>lower\<close> does on ASCII strings, and stands for \<open>lower\<close>
  in the examples, whose strings are ASCII.\<close>

definition ascii_lower_chr :: "char \<Rightarrow> char" where
  "ascii_lower_chr c =
     (case map_of (zip ''ABCDEFGHIJKLMNOPQRSTUVWXYZ'' ''abcdefghijklmnopqrstuvwxyz'') c of
        Some d \<Rightarrow> d
      | None \<Rightarrow> c)"

definition ascii_lower :: "string \<Rightarrow> string" where
  "ascii_lower s = map ascii_lower_chr s"

text \<open>An ASCII character is one below 128: its highest bit is clear.\<close>

definition is_ascii :: "string \<Rightarrow> bool" where
  "is_ascii s = list_all (\<lambda>c. \<not> digit7 c) s"

definition agrees_on_ascii :: "(string \<Rightarrow> string) \<Rightarrow> bool" where
  "agrees_on_ascii lower = (\<forall>s. is_ascii s \<longrightarrow> lower s = ascii_lower s)"

text \<open>Two more properties that \<^verbatim>\<open>str.lower()\<close> has: lower-casing twice is
  lower-casing once, and the suffix \<^verbatim>\<open>/*\<close> is neither touched nor produced.\<close>

definition idempotent_lower :: "(string \<Rightarrow> string) \<Rightarrow> bool" where
  "idempotent_lower lower = (\<forall>s. lower (lower s) = lower s)"

definition keeps_wildcard :: "(string \<Rightarrow> string) \<Rightarrow> bool" where
  "keeps_wildcard lower =
     ((\<forall>p. lower (p @ ''/*'') = lower p @ ''/*'')
      \<and> (\<forall>e. suffix ''/*'' (lower e) \<longrightarrow> suffix ''/*'' e))"

text \<open>\<^verbatim>\<open>s.split(d)\<close> for a one-character delimiter: never empty, \<^verbatim>\<open>"".split("|") == [""]\<close>.\<close>

fun str_split :: "char \<Rightarrow> string \<Rightarrow> string list" where
  "str_split d [] = [[]]"
| "str_split d (c # cs) =
     (if c = d then [] # str_split d cs
      else (case str_split d cs of
              t # ts \<Rightarrow> (c # t) # ts
            | [] \<Rightarrow> [[c]]))"

text \<open>\<^verbatim>\<open>s.rsplit(d, 1)\<close>: one piece when \<open>d\<close> does not occur, else the text before
  and after the last \<open>d\<close>.\<close>

definition str_rsplit1 :: "char \<Rightarrow> string \<Rightarrow> string list" where
  "str_rsplit1 d s =
     (if d \<notin> set s then [s]
      else (let after = rev (takeWhile (\<lambda>c. c \<noteq> d) (rev s))
            in [take (length s - length after - 1) s, after]))"

definition endswith :: "string \<Rightarrow> string \<Rightarrow> bool" where
  "endswith s suf = suffix suf s"

definition startswith :: "string \<Rightarrow> string \<Rightarrow> bool" where
  "startswith s pre = prefix pre s"

text \<open>The slice \<^verbatim>\<open>s[:-2]\<close>.\<close>

definition slice_to_minus2 :: "string \<Rightarrow> string" where
  "slice_to_minus2 s = take (length s - 2) s"

section \<open>Python protocols on values\<close>

text \<open>Truthiness, as \<^verbatim>\<open>if x:\<close> tests it.\<close>

fun truthy :: "pyval \<Rightarrow> bool" where
  "truthy VNone = False"
| "truthy (VBool b) = b"
| "truthy (VInt i) = (i \<noteq> 0)"
| "truthy (VStr s) = (s \<noteq> [])"
| "truthy (VList xs) = (xs \<noteq> [])"
| "truthy (VDict kvs) = (kvs \<noteq> [])"

text \<open>\<^verbatim>\<open>current[token]\<close> with a string token: only a dict that has the key gives a
  value; a missing key, a list, a string, a number or \<^verbatim>\<open>None\<close> raise.\<close>

fun subscript :: "pyval \<Rightarrow> string \<Rightarrow> pyval option" where
  "subscript (VDict kvs) token = map_of kvs token"
| "subscript _ token = None"

text \<open>\<^verbatim>\<open>for x in v\<close>: a list gives its elements, a dict its keys, a string its
  characters; anything else is not iterable.\<close>

fun py_iter :: "pyval \<Rightarrow> failure + pyval list" where
  "py_iter (VList xs) = Inr xs"
| "py_iter (VDict kvs) = Inr (map (\<lambda>kv. VStr (fst kv)) kvs)"
| "py_iter (VStr s) = Inr (map (\<lambda>c. VStr [c]) s)"
| "py_iter _ = Inl TypeError"

section \<open>\<^verbatim>\<open>ConfigurationCore\<close>: the tree accessor\<close>

text \<open>The loop \<^verbatim>\<open>for token in tokens: current = current[token]\<close>; \<open>None\<close> when a
  subscript raised.\<close>

fun descend :: "pyval \<Rightarrow> string list \<Rightarrow> pyval option" where
  "descend current [] = Some current"
| "descend current (token # tokens) =
     (case subscript current token of
        None \<Rightarrow> None
      | Some v \<Rightarrow> descend v tokens)"

text \<open>\<^verbatim>\<open>get(self, path, default=None)\<close>, with \<open>config\<close> for \<^verbatim>\<open>self.config\<close>.\<close>

definition get :: "pyval \<Rightarrow> string \<Rightarrow> pyval \<Rightarrow> failure + pyval" where
  "get config path dflt =
     (case descend config (str_split CHR ''|'' path) of
        Some current \<Rightarrow> Inr current
      | None \<Rightarrow> if dflt \<noteq> VNone then Inr dflt else Inl KeyNotFoundException)"

text \<open>A call site of \<^verbatim>\<open>get\<close>: the second argument is there or not, and Python
  binds the parameter to \<^verbatim>\<open>None\<close> when it is not.\<close>

definition get_call :: "pyval \<Rightarrow> string \<Rightarrow> pyval option \<Rightarrow> failure + pyval" where
  "get_call config path supplied =
     get config path (case supplied of None \<Rightarrow> VNone | Some d \<Rightarrow> d)"

section \<open>\<^verbatim>\<open>ConfigurationCore\<close>: case-insensitive matching\<close>

text \<open>The loop of \<^verbatim>\<open>get_case_insensitively\<close> over \<^verbatim>\<open>a_dict.keys()\<close>.\<close>

fun get_case_insensitively_loop :: "(string \<Rightarrow> string) \<Rightarrow> (string \<times> pyval) list \<Rightarrow> string \<Rightarrow> failure + pyval" where
  "get_case_insensitively_loop lower [] a_key = Inl KeyNotFoundException"
| "get_case_insensitively_loop lower ((dict_key, v) # rest) a_key =
     (if lower dict_key = lower a_key then Inr v
      else get_case_insensitively_loop lower rest a_key)"

fun get_case_insensitively :: "(string \<Rightarrow> string) \<Rightarrow> pyval \<Rightarrow> string \<Rightarrow> failure + pyval" where
  "get_case_insensitively lower (VDict kvs) a_key = get_case_insensitively_loop lower kvs a_key"
| "get_case_insensitively lower _ a_key = Inl AttributeError"

text \<open>The loop of \<^verbatim>\<open>is_skipped_case_insensitively\<close>; \<open>item\<close> is already lower-cased.
  An element that is not a string has no \<^verbatim>\<open>lower\<close>.\<close>

fun is_skipped_loop :: "(string \<Rightarrow> string) \<Rightarrow> pyval list \<Rightarrow> string \<Rightarrow> failure + bool" where
  "is_skipped_loop lower [] item = Inr False"
| "is_skipped_loop lower (VStr e # rest) item =
     (let list_element = lower e in
      if list_element = item then Inr True
      else if endswith list_element ''/*''
              \<and> startswith item (slice_to_minus2 list_element)
              \<and> length item \<ge> length (slice_to_minus2 list_element)
           then Inr True
      else is_skipped_loop lower rest item)"
| "is_skipped_loop lower (_ # rest) item = Inl AttributeError"

definition is_skipped_case_insensitively :: "(string \<Rightarrow> string) \<Rightarrow> pyval \<Rightarrow> string \<Rightarrow> failure + bool" where
  "is_skipped_case_insensitively lower an_array item =
     (case py_iter an_array of
        Inl e \<Rightarrow> Inl e
      | Inr elements \<Rightarrow> is_skipped_loop lower elements (lower item))"

text \<open>Catching \<^verbatim>\<open>KeyNotFoundException\<close> and returning \<^verbatim>\<open>{}\<close>; any other exception
  passes.\<close>

fun except_KeyNotFound_empty :: "failure + pyval \<Rightarrow> failure + pyval" where
  "except_KeyNotFound_empty (Inl KeyNotFoundException) = Inr (VDict [])"
| "except_KeyNotFound_empty r = r"

definition get_group_config :: "(string \<Rightarrow> string) \<Rightarrow> pyval \<Rightarrow> string \<Rightarrow> failure + pyval" where
  "get_group_config lower config grp =
     except_KeyNotFound_empty
       (case get config ''projects_and_groups'' VNone of
          Inl e \<Rightarrow> Inl e
        | Inr a_dict \<Rightarrow> get_case_insensitively lower a_dict (grp @ ''/*''))"

definition get_project_config :: "(string \<Rightarrow> string) \<Rightarrow> pyval \<Rightarrow> string \<Rightarrow> failure + pyval" where
  "get_project_config lower config group_and_project =
     except_KeyNotFound_empty
       (case get config ''projects_and_groups'' VNone of
          Inl e \<Rightarrow> Inl e
        | Inr a_dict \<Rightarrow> get_case_insensitively lower a_dict group_and_project)"

definition get_common_config :: "pyval \<Rightarrow> failure + pyval" where
  "get_common_config config = get config ''projects_and_groups|*'' (VDict [])"

definition is_project_skipped :: "(string \<Rightarrow> string) \<Rightarrow> pyval \<Rightarrow> string \<Rightarrow> failure + bool" where
  "is_project_skipped lower config project =
     (case get config ''skip_projects'' (VList []) of
        Inl e \<Rightarrow> Inl e
      | Inr an_array \<Rightarrow> is_skipped_case_insensitively lower an_array project)"

definition is_group_skipped :: "(string \<Rightarrow> string) \<Rightarrow> pyval \<Rightarrow> string \<Rightarrow> failure + bool" where
  "is_group_skipped lower config grp =
     (case get config ''skip_groups'' (VList []) of
        Inl e \<Rightarrow> Inl e
      | Inr an_array \<Rightarrow> is_skipped_case_insensitively lower an_array grp)"

section \<open>\<^verbatim>\<open>ConfigurationCore\<close>: merging\<close>

text \<open>
  Modelled from the spec: the function \<^verbatim>\<open>merge\<close> of the third-party package
  \<^verbatim>\<open>mergedeep\<close>, which \<^verbatim>\<open>merge_configs\<close> calls and which is not part of this
  repository. Section 4.4 of the specification gives its result: a key of both
  dicts whose two values are dicts is merged recursively, otherwise the value of
  the more specific dict replaces the other; a key of one dict only passes
  through. \<open>deepmerge dst src\<close> is the destination after one source was merged
  into it: an existing key keeps its place, a new key goes to the end.
\<close>

fun deepmerge :: "(string \<times> pyval) list \<Rightarrow> (string \<times> pyval) list \<Rightarrow> (string \<times> pyval) list" where
  "deepmerge dst [] = dst"
| "deepmerge dst ((key, VDict s) # src) =
     deepmerge
       (case map_of dst key of
          Some (VDict d) \<Rightarrow> AList.update key (VDict (deepmerge d s)) dst
        | _ \<Rightarrow> AList.update key (VDict s) dst)
       src"
| "deepmerge dst ((key, v) # src) = deepmerge (AList.update key v dst) src"

text \<open>
  Modelled from the spec: the same library function on a source that is not a
  dict, on which the specification is silent. The library iterates over the
  source and subscripts it with each element: an empty list or string leaves the
  destination as it is; \<^verbatim>\<open>None\<close>, a number, a non-empty string or a list that starts with anything but
  a number raise \<^verbatim>\<open>TypeError\<close>; a list that starts with a number would put
  integer keys into the destination, which this model of dicts does not hold.
\<close>

fun deepmerge_any :: "(string \<times> pyval) list \<Rightarrow> pyval \<Rightarrow> failure + (string \<times> pyval) list" where
  "deepmerge_any dst (VDict src) = Inr (deepmerge dst src)"
| "deepmerge_any dst (VList []) = Inr dst"
| "deepmerge_any dst (VStr []) = Inr dst"
| "deepmerge_any dst (VList (VInt i # xs)) = Inl NotModelled"
| "deepmerge_any dst (VList (VBool b # xs)) = Inl NotModelled"
| "deepmerge_any dst v = Inl TypeError"

text \<open>\<^verbatim>\<open>merge_configs\<close>: \<^verbatim>\<open>dict(merge({}, more_general_config, more_specific_config))\<close>.\<close>

definition merge_configs :: "pyval \<Rightarrow> pyval \<Rightarrow> failure + pyval" where
  "merge_configs more_general_config more_specific_config =
     (case deepmerge_any [] more_general_config of
        Inl e \<Rightarrow> Inl e
      | Inr dst \<Rightarrow>
          (case deepmerge_any dst more_specific_config of
             Inl e \<Rightarrow> Inl e
           | Inr merged \<Rightarrow> Inr (VDict merged)))"

section \<open>\<^verbatim>\<open>ConfigurationCore\<close>: the duplicate detector\<close>

text \<open>\<^verbatim>\<open>[x.lower() for x in items]\<close> raises at an item that is not a string; when it
  does not, the items are these strings.\<close>

fun as_strings :: "pyval list \<Rightarrow> failure + string list" where
  "as_strings [] = Inr []"
| "as_strings (VStr s # xs) =
     (case as_strings xs of Inl e \<Rightarrow> Inl e | Inr ss \<Rightarrow> Inr (s # ss))"
| "as_strings (_ # xs) = Inl AttributeError"

text \<open>The inner loop over \<^verbatim>\<open>items_with_lowercase_names\<close>, with the counter
  \<^verbatim>\<open>occurrences\<close>: true when it appended \<^verbatim>\<open>first_item\<close> and broke out.\<close>

fun second_occurrence :: "(string \<Rightarrow> string) \<Rightarrow> string \<Rightarrow> string list \<Rightarrow> nat \<Rightarrow> bool" where
  "second_occurrence lower first_item [] occurrences = False"
| "second_occurrence lower first_item (second_item # rest) occurrences =
     (if lower first_item = lower second_item
      then (if occurrences + 1 = 2 then True
            else second_occurrence lower first_item rest (occurrences + 1))
      else second_occurrence lower first_item rest occurrences)"

text \<open>The body of \<^verbatim>\<open>_find_almost_duplicate\<close> once the items are read;
  \<^verbatim>\<open>len(set(xs))\<close> is the number of distinct elements.\<close>

definition almost_duplicates_among :: "(string \<Rightarrow> string) \<Rightarrow> string list \<Rightarrow> string list" where
  "almost_duplicates_among lower items =
     (let items_with_lowercase_names = map lower items in
      if length (remdups items) \<noteq> length (remdups items_with_lowercase_names)
      then filter (\<lambda>first_item. second_occurrence lower first_item items_with_lowercase_names 0) items
      else [])"

definition find_almost_duplicate :: "(string \<Rightarrow> string) \<Rightarrow> pyval \<Rightarrow> string \<Rightarrow> failure + string list" where
  "find_almost_duplicate lower config configuration_path =
     (case get config configuration_path VNone of
        Inl e \<Rightarrow> Inl e
      | Inr dict_or_list \<Rightarrow>
          (case py_iter dict_or_list of
             Inl e \<Rightarrow> Inl e
           | Inr elements \<Rightarrow>
               (case as_strings elements of
                  Inl e \<Rightarrow> Inl e
                | Inr items \<Rightarrow> Inr (almost_duplicates_among lower items))))"

text \<open>One round of the loop of \<^verbatim>\<open>_find_almost_duplicates\<close>.\<close>

definition check_section :: "(string \<Rightarrow> string) \<Rightarrow> pyval \<Rightarrow> string \<Rightarrow> failure + unit" where
  "check_section lower config path =
     (case get config path (VInt 0) of
        Inl e \<Rightarrow> Inl e
      | Inr v \<Rightarrow>
          if truthy v
          then (case find_almost_duplicate lower config path of
                  Inl e \<Rightarrow> Inl e
                | Inr almost_duplicates \<Rightarrow>
                    if almost_duplicates \<noteq> []
                    then Inl (SystemExit (AlmostDuplicateKeys path almost_duplicates))
                    else Inr ())
          else Inr ())"

fun check_sections :: "(string \<Rightarrow> string) \<Rightarrow> pyval \<Rightarrow> string list \<Rightarrow> failure + unit" where
  "check_sections lower config [] = Inr ()"
| "check_sections lower config (path # paths) =
     (case check_section lower config path of
        Inl e \<Rightarrow> Inl e
      | Inr _ \<Rightarrow> check_sections lower config paths)"

definition protected_sections :: "string list" where
  "protected_sections = [''projects_and_groups'', ''skip_groups'', ''skip_projects'']"

definition find_almost_duplicates :: "(string \<Rightarrow> string) \<Rightarrow> pyval \<Rightarrow> failure + unit" where
  "find_almost_duplicates lower config = check_sections lower config protected_sections"

section \<open>\<^verbatim>\<open>ConfigurationCore\<close>: loading\<close>

text \<open>
  What \<^verbatim>\<open>_load_config\<close> asks of the world outside: the environment variable
  \<^verbatim>\<open>APP_HOME\<close>, the home and the working directory, \<^verbatim>\<open>os.path.join\<close> and
  \<^verbatim>\<open>os.path.dirname\<close>, reading a file (\<open>None\<close> when \<^verbatim>\<open>open\<close> or the read raises
  \<^verbatim>\<open>FileNotFoundError\<close> or \<^verbatim>\<open>IOError\<close>), \<^verbatim>\<open>textwrap.dedent\<close> and
  \<^verbatim>\<open>yaml.safe_load\<close> (\<open>None\<close> when the parser raises).
\<close>

record externals =
  environ_APP_HOME :: "string option"
  path_home :: string
  getcwd :: string
  path_join :: "string \<Rightarrow> string \<Rightarrow> string"
  path_dirname :: "string \<Rightarrow> string"
  read_file :: "string \<Rightarrow> string option"
  dedent :: "string \<Rightarrow> string"
  yaml_safe_load :: "string \<Rightarrow> pyval option"

text \<open>The two fields \<^verbatim>\<open>self.config\<close> and \<^verbatim>\<open>self.config_dir\<close>.\<close>

record core =
  self_config :: pyval
  self_config_dir :: string

text \<open>An optional string argument is true when it is given and not empty.\<close>

fun given :: "string option \<Rightarrow> bool" where
  "given None = False"
| "given (Some s) = (s \<noteq> [])"

text \<open>\<^verbatim>\<open>d.get(key, dflt)\<close> on a dict.\<close>

definition dict_get :: "(string \<times> pyval) list \<Rightarrow> string \<Rightarrow> pyval \<Rightarrow> pyval" where
  "dict_get kvs key dflt = (case map_of kvs key of None \<Rightarrow> dflt | Some v \<Rightarrow> v)"

text \<open>\<^verbatim>\<open>v == n\<close> for an integer literal \<open>n\<close>: a bool counts as 0 or 1.\<close>

fun py_eq_int :: "pyval \<Rightarrow> int \<Rightarrow> bool" where
  "py_eq_int (VInt i) n = (i = n)"
| "py_eq_int (VBool b) n = ((if b then 1 else 0) = n)"
| "py_eq_int _ n = False"

text \<open>The \<^verbatim>\<open>if\<close>/\<^verbatim>\<open>elif\<close> chain that settles the file to read.\<close>

definition resolve_config_path :: "externals \<Rightarrow> string option \<Rightarrow> string" where
  "resolve_config_path ext config_path =
     (case environ_APP_HOME ext of
        Some app_home \<Rightarrow> path_join ext app_home ''config.yml''
      | None \<Rightarrow>
          (case config_path of
             None \<Rightarrow> path_join ext (path_join ext (path_home ext) ''.gitlabform'') ''config.yml''
           | Some p \<Rightarrow>
               if p = [] then path_join ext (path_join ext (path_home ext) ''.gitlabform'') ''config.yml''
               else if p \<in> set [path_join ext ''.'' ''config.yml'', ''config.yml'']
                    then path_join ext (getcwd ext) ''config.yml''
               else p))"

text \<open>The checks made on a tree read from a file. \<^verbatim>\<open>self.config.get\<close> on a value
  that is not a dict raises \<^verbatim>\<open>AttributeError\<close>, which the last \<^verbatim>\<open>except\<close> wraps.\<close>

fun check_file_tree :: "pyval \<Rightarrow> failure + unit" where
  "check_file_tree (VDict kvs) =
     (if truthy (dict_get kvs ''example_config'' VNone)
      then Inl (SystemExit ExampleConfigDetected)
      else if \<not> py_eq_int (dict_get kvs ''config_version'' (VInt 1)) 2
      then Inl (SystemExit UnsupportedConfigVersion)
      else Inr ())"
| "check_file_tree _ = Inl ConfigInvalidException"

text \<open>\<^verbatim>\<open>_load_config(self, config_string=None, config_path=None)\<close>. The example and
  version checks stand in the \<^verbatim>\<open>else\<close> branch, the one that reads a file.\<close>

definition load_config :: "externals \<Rightarrow> string option \<Rightarrow> string option \<Rightarrow> failure + core" where
  "load_config ext config_string config_path =
     (if given config_path \<and> given config_string
      then Inl (SystemExit ConfigSourceConflict)
      else
        (case (given config_string, config_string) of
           (True, Some s) \<Rightarrow>
             (case yaml_safe_load ext (dedent ext s) of
                None \<Rightarrow> Inl ConfigInvalidException
              | Some tree \<Rightarrow> Inr \<lparr>self_config = tree, self_config_dir = ''.''\<rparr>)
         | _ \<Rightarrow>
             (let path = resolve_config_path ext config_path in
              case read_file ext path of
                None \<Rightarrow> Inl (ConfigFileNotFoundException path)
              | Some content \<Rightarrow>
                  (case yaml_safe_load ext content of
                     None \<Rightarrow> Inl ConfigInvalidException
                   | Some tree \<Rightarrow>
                       (case check_file_tree tree of
                          Inl e \<Rightarrow> Inl e
                        | Inr _ \<Rightarrow>
                            Inr \<lparr>self_config = tree,
                                 self_config_dir = path_dirname ext path\<rparr>)))))"

text \<open>\<^verbatim>\<open>ConfigurationCore.__init__\<close>; \<^verbatim>\<open>Configuration.__init__\<close> adds the two
  resolver objects to it, which cannot fail.\<close>

definition Configuration_init :: "(string \<Rightarrow> string) \<Rightarrow> externals \<Rightarrow> string option \<Rightarrow> string option \<Rightarrow> failure + core" where
  "Configuration_init lower ext config_path config_string =
     (case load_config ext config_string config_path of
        Inl e \<Rightarrow> Inl e
      | Inr self \<Rightarrow>
          (case find_almost_duplicates lower (self_config self) of
             Inl e \<Rightarrow> Inl e
           | Inr _ \<Rightarrow> Inr self))"

section \<open>\<^verbatim>\<open>ConfigurationProjects\<close>\<close>

definition get_projects :: "pyval \<Rightarrow> failure + string list" where
  "get_projects config =
     (case get config ''projects_and_groups'' VNone of
        Inl e \<Rightarrow> Inl e
      | Inr (VDict kvs) \<Rightarrow>
          Inr (sort (filter (\<lambda>element. element \<noteq> ''*'' \<and> \<not> endswith element ''/*'')
                            (map fst kvs)))
      | Inr _ \<Rightarrow> Inl AttributeError)"

text \<open>
  \<^verbatim>\<open>get_effective_config_for_project\<close>. The object \<^verbatim>\<open>self.groups\<close> is handed to
  the constructor of \<^verbatim>\<open>ConfigurationProjects\<close>; its one method used here,
  \<^verbatim>\<open>get_effective_subgroup_config\<close>, is the argument after \<open>lower\<close>. Unpacking
  \<^verbatim>\<open>rsplit("/", 1)\<close> into two names raises \<^verbatim>\<open>ValueError\<close> when there is no slash.
\<close>

definition get_effective_config_for_project ::
    "(string \<Rightarrow> string) \<Rightarrow> (string \<Rightarrow> failure + pyval) \<Rightarrow> pyval \<Rightarrow> string \<Rightarrow> failure + pyval" where
  "get_effective_config_for_project lower get_effective_subgroup_config config group_and_project =
     (case get_common_config config of
        Inl e \<Rightarrow> Inl e
      | Inr common_config \<Rightarrow>
          (case str_rsplit1 CHR ''/'' group_and_project of
             [grp, project] \<Rightarrow>
               (case (if CHR ''/'' \<in> set grp
                      then get_effective_subgroup_config grp
                      else get_group_config lower config grp) of
                  Inl e \<Rightarrow> Inl e
                | Inr group_config \<Rightarrow>
                    (case get_project_config lower config group_and_project of
                       Inl e \<Rightarrow> Inl e
                     | Inr project_config \<Rightarrow>
                         (case merge_configs common_config group_config of
                            Inl e \<Rightarrow> Inl e
                          | Inr common_and_group_config \<Rightarrow>
                              merge_configs common_and_group_config project_config)))
           | _ \<Rightarrow> Inl ValueError))"

section \<open>Merging on a store of objects\<close>

text \<open>
  What a call leaves unchanged can only be said of objects that can change. Here
  a dict or a list is an object in a store and is found by its address, which is
  its index in the store; a value is a scalar or a reference to an object, and
  two references to one address are one object. A new object goes to the end of
  the store.
\<close>

datatype hval = HNone | HBool bool | HInt int | HStr string | HRef nat

datatype hobj = ODict "(string \<times> hval) list" | OList "hval list"

type_synonym heap = "hobj list"

definition lookup :: "heap \<Rightarrow> nat \<Rightarrow> hobj option" where
  "lookup h a = (if a < length h then Some (h ! a) else None)"

text \<open>
  Modelled from the spec: \<^verbatim>\<open>copy.deepcopy\<close> of the standard library and the
  function \<^verbatim>\<open>merge\<close> of the third-party package \<^verbatim>\<open>mergedeep\<close>, neither of which
  is part of this repository. Section 4.4 of the specification gives the result
  of the merge and asks that no input be mutated; the package merges each source
  into the destination it is handed, in place, and what it takes from a source it
  takes as a deep copy. The first argument of each function bounds the depth of
  the recursion; the result \<open>None\<close> or \<open>False\<close> stands for a call that raises or
  that the bound cuts short. A copy shares nothing with its original.
\<close>

fun deepcopy :: "nat \<Rightarrow> heap \<Rightarrow> hval \<Rightarrow> heap \<times> hval option"
and deepcopy_all :: "nat \<Rightarrow> heap \<Rightarrow> hval list \<Rightarrow> heap \<times> hval list option" where
  "deepcopy 0 h v = (h, None)"
| "deepcopy (Suc n) h (HRef a) =
     (case lookup h a of
        None \<Rightarrow> (h, None)
      | Some (ODict kvs) \<Rightarrow>
          (case deepcopy_all n h (map snd kvs) of
             (h', None) \<Rightarrow> (h', None)
           | (h', Some vs) \<Rightarrow> (h' @ [ODict (zip (map fst kvs) vs)], Some (HRef (length h'))))
      | Some (OList xs) \<Rightarrow>
          (case deepcopy_all n h xs of
             (h', None) \<Rightarrow> (h', None)
           | (h', Some vs) \<Rightarrow> (h' @ [OList vs], Some (HRef (length h')))))"
| "deepcopy (Suc n) h v = (h, Some v)"
| "deepcopy_all n h [] = (h, Some [])"
| "deepcopy_all n h (v # vs) =
     (case deepcopy n h v of
        (h1, None) \<Rightarrow> (h1, None)
      | (h1, Some c) \<Rightarrow>
          (case deepcopy_all n h1 vs of
             (h2, None) \<Rightarrow> (h2, None)
           | (h2, Some cs) \<Rightarrow> (h2, Some (c # cs))))"

text \<open>\<^verbatim>\<open>isinstance(x, Mapping)\<close> for the object at an address, and the assignment
  \<^verbatim>\<open>dst[key] = v\<close>, which changes the object at \<open>dst\<close>.\<close>

definition is_dict :: "heap \<Rightarrow> nat \<Rightarrow> bool" where
  "is_dict h a = (case lookup h a of Some (ODict kvs) \<Rightarrow> True | _ \<Rightarrow> False)"

definition setitem :: "heap \<Rightarrow> nat \<Rightarrow> string \<Rightarrow> hval \<Rightarrow> heap" where
  "setitem h dst key v =
     (case lookup h dst of
        Some (ODict d) \<Rightarrow> h[dst := ODict (AList.update key v d)]
      | _ \<Rightarrow> h)"

text \<open>Modelled from the spec: the library's assignment
  \<^verbatim>\<open>dst[key] = deepcopy(src[key])\<close>.\<close>

definition setitem_copy :: "nat \<Rightarrow> heap \<Rightarrow> nat \<Rightarrow> string \<Rightarrow> hval \<Rightarrow> heap \<times> bool" where
  "setitem_copy n h dst key v =
     (case deepcopy n h v of
        (h1, None) \<Rightarrow> (h1, False)
      | (h1, Some c) \<Rightarrow> (setitem h1 dst key c, True))"

text \<open>
  Modelled from the spec: the library's \<^verbatim>\<open>_deepmerge(dst, src)\<close> with the strategy
  \<^verbatim>\<open>REPLACE\<close>, and its loop over the items of \<^verbatim>\<open>src\<close>, read once when the loop
  starts. For a key of both: two dicts are merged by the recursive
  call, which changes \<^verbatim>\<open>dst[key]\<close> in place; one and the same object is left
  alone; anything else is replaced by a deep copy. (For two scalars the test
  \<^verbatim>\<open>dst[key] is src[key]\<close> makes no difference to the store: the copy of a scalar
  is the scalar.)
\<close>

fun deepmerge_heap :: "nat \<Rightarrow> heap \<Rightarrow> nat \<Rightarrow> nat \<Rightarrow> heap \<times> bool"
and deepmerge_keys :: "nat \<Rightarrow> heap \<Rightarrow> nat \<Rightarrow> (string \<times> hval) list \<Rightarrow> heap \<times> bool" where
  "deepmerge_heap 0 h dst src = (h, False)"
| "deepmerge_heap (Suc n) h dst src =
     (case lookup h src of
        Some (ODict items) \<Rightarrow> deepmerge_keys n h dst items
      | _ \<Rightarrow> (h, False))"
| "deepmerge_keys n h dst [] = (h, True)"
| "deepmerge_keys n h dst ((key, v) # rest) =
     (case lookup h dst of
        Some (ODict d) \<Rightarrow>
          (case (case (map_of d key, v) of
                   (Some (HRef a), HRef b) \<Rightarrow>
                     if is_dict h a \<and> is_dict h b then deepmerge_heap n h a b
                     else if a = b then (h, True)
                     else setitem_copy n h dst key v
                 | _ \<Rightarrow> setitem_copy n h dst key v) of
             (h1, False) \<Rightarrow> (h1, False)
           | (h1, True) \<Rightarrow> deepmerge_keys n h1 dst rest)
      | _ \<Rightarrow> (h, False))"

text \<open>Modelled from the spec: one round of \<^verbatim>\<open>reduce\<close> in the library's \<^verbatim>\<open>merge\<close>. A
  source that is no dict is iterated all the same, which does nothing for an empty list or string and has no result
  in this model otherwise.\<close>

fun deepmerge_source :: "nat \<Rightarrow> heap \<Rightarrow> nat \<Rightarrow> hval \<Rightarrow> heap \<times> bool" where
  "deepmerge_source n h dst (HRef src) =
     (case lookup h src of
        Some (ODict items) \<Rightarrow> deepmerge_heap n h dst src
      | Some (OList []) \<Rightarrow> (h, True)
      | _ \<Rightarrow> (h, False))"
| "deepmerge_source n h dst (HStr []) = (h, True)"
| "deepmerge_source n h dst v = (h, False)"

text \<open>\<^verbatim>\<open>merge_configs\<close> on the store: the destination \<^verbatim>\<open>{}\<close> is a new object, and
  \<^verbatim>\<open>dict(...)\<close> copies the merged destination into another new object.\<close>

definition merge_configs_heap :: "nat \<Rightarrow> heap \<Rightarrow> hval \<Rightarrow> hval \<Rightarrow> heap \<times> hval option" where
  "merge_configs_heap n h more_general_config more_specific_config =
     (let destination = length h;
          h0 = h @ [ODict []] in
      case deepmerge_source n h0 destination more_general_config of
        (h1, False) \<Rightarrow> (h1, None)
      | (h1, True) \<Rightarrow>
          (case deepmerge_source n h1 destination more_specific_config of
             (h2, False) \<Rightarrow> (h2, None)
           | (h2, True) \<Rightarrow>
               (case lookup h2 destination of
                  Some (ODict merged) \<Rightarrow> (h2 @ [ODict merged], Some (HRef (length h2)))
                | _ \<Rightarrow> (h2, None))))"

text \<open>The tree that a value stands for in a store, read to a bounded depth.\<close>

fun value_of :: "nat \<Rightarrow> heap \<Rightarrow> hval \<Rightarrow> pyval option"
and values_of :: "nat \<Rightarrow> heap \<Rightarrow> hval list \<Rightarrow> pyval list option" where
  "value_of 0 h v = None"
| "value_of (Suc k) h HNone = Some VNone"
| "value_of (Suc k) h (HBool b) = Some (VBool b)"
| "value_of (Suc k) h (HInt i) = Some (VInt i)"
| "value_of (Suc k) h (HStr s) = Some (VStr s)"
| "value_of (Suc k) h (HRef a) =
     (case lookup h a of
        None \<Rightarrow> None
      | Some (ODict kvs) \<Rightarrow>
          (case values_of k h (map snd kvs) of
             None \<Rightarrow> None
           | Some ts \<Rightarrow> Some (VDict (zip (map fst kvs) ts)))
      | Some (OList xs) \<Rightarrow>
          (case values_of k h xs of
             None \<Rightarrow> None
           | Some ts \<Rightarrow> Some (VList ts)))"
| "values_of k h [] = Some []"
| "values_of k h (v # vs) =
     (case value_of k h v of
        None \<Rightarrow> None
      | Some t \<Rightarrow>
          (case values_of k h vs of
             None \<Rightarrow> None
           | Some ts \<Rightarrow> Some (t # ts)))"

text \<open>A store for the examples: at 0 the dict \<^verbatim>\<open>{x: {p: 1, q: 2}, y: 0}\<close>, at 2 the dict
  \<^verbatim>\<open>{z: 5, x: {q: 3, r: [7]}}\<close>.\<close>

definition example_heap :: heap where
  "example_heap =
     [ODict [(''x'', HRef 1), (''y'', HInt 0)],
      ODict [(''p'', HInt 1), (''q'', HInt 2)],
      ODict [(''z'', HInt 5), (''x'', HRef 3)],
      ODict [(''q'', HInt 3), (''r'', HRef 4)],
      OList [HInt 7]]"

text \<open>For the proof: the objects from address \<open>n0\<close> on refer only to objects from
  \<open>n0\<close> on.\<close>

fun fresh_val :: "nat \<Rightarrow> hval \<Rightarrow> bool" where
  "fresh_val n0 (HRef a) = (n0 \<le> a)"
| "fresh_val n0 v = True"

fun vals_of :: "hobj \<Rightarrow> hval list" where
  "vals_of (ODict kvs) = map snd kvs"
| "vals_of (OList xs) = xs"

definition fresh_closed :: "nat \<Rightarrow> heap \<Rightarrow> bool" where
  "fresh_closed n0 h = (\<forall>a. n0 \<le> a \<and> a < length h \<longrightarrow> (\<forall>v \<in> set (vals_of (h ! a)). fresh_val n0 v))"

section \<open>A world for the examples\<close>

text \<open>A world with no \<^verbatim>\<open>APP_HOME\<close>, one readable file \<^verbatim>\<open>/work/config.yml\<close>, and a
  parser that reads every text as the given tree.\<close>

definition example_externals :: "pyval \<Rightarrow> externals" where
  "example_externals tree =
     \<lparr>environ_APP_HOME = None,
      path_home = ''/home/user'',
      getcwd = ''/work'',
      path_join = (\<lambda>a b. a @ ''/'' @ b),
      path_dirname = (\<lambda>p. ''/work''),
      read_file = (\<lambda>p. if p = ''/work/config.yml'' then Some ''text'' else None),
      dedent = (\<lambda>s. s),
      yaml_safe_load = (\<lambda>s. Some tree)\<rparr>"

section \<open>Properties\<close>

subsection \<open>Lower-casing of ASCII strings\<close>

lemma ascii_lower_chr_twice: "ascii_lower_chr (ascii_lower_chr c) = ascii_lower_chr c"
  by (simp add: ascii_lower_chr_def)

lemma ascii_lower_twice: "ascii_lower (ascii_lower s) = ascii_lower s"
  by (simp add: ascii_lower_def ascii_lower_chr_twice)

lemma length_ascii_lower: "length (ascii_lower s) = length s"
  by (simp add: ascii_lower_def)

lemma ascii_lower_chr_slash: "ascii_lower_chr c = CHR ''/'' \<longleftrightarrow> c = CHR ''/''"
  by (auto simp add: ascii_lower_chr_def)

lemma ascii_lower_chr_star: "ascii_lower_chr c = CHR ''*'' \<longleftrightarrow> c = CHR ''*''"
  by (auto simp add: ascii_lower_chr_def)

lemma ascii_lower_take: "ascii_lower (take n s) = take n (ascii_lower s)"
  by (simp add: ascii_lower_def take_map)

lemma ascii_lower_append: "ascii_lower (a @ b) = ascii_lower a @ ascii_lower b"
  by (simp add: ascii_lower_def)

lemma endswith_wildcard_lower: "endswith (ascii_lower e) ''/*'' \<longleftrightarrow> endswith e ''/*''"
proof
  assume "endswith (ascii_lower e) ''/*''"
  then obtain p where p: "ascii_lower e = p @ ''/*''" by (auto simp: endswith_def suffix_def)
  then have le: "length e = length p + 2" using length_ascii_lower[of e] by simp
  define q where "q = take (length p) e"
  define r where "r = drop (length p) e"
  have e: "e = q @ r" by (simp add: q_def r_def)
  have lr: "length r = 2" using le by (simp add: r_def)
  have "ascii_lower q @ ascii_lower r = p @ ''/*''" using p e by (simp add: ascii_lower_append)
  moreover have "length (ascii_lower q) = length p" using le by (simp add: q_def length_ascii_lower)
  ultimately have "ascii_lower r = ''/*''" by simp
  moreover obtain a b where "r = [a, b]" using lr
    by (cases r; simp) (metis length_0_conv length_Suc_conv)
  ultimately have "r = ''/*''"
    by (simp add: ascii_lower_def ascii_lower_chr_slash ascii_lower_chr_star)
  then show "endswith e ''/*''" using e by (simp add: endswith_def suffix_def)
next
  assume "endswith e ''/*''"
  then obtain p where "e = p @ ''/*''" by (auto simp: endswith_def suffix_def)
  moreover have "ascii_lower ''/*'' = ''/*''" by (simp add: ascii_lower_def ascii_lower_chr_def)
  ultimately have "ascii_lower e = ascii_lower p @ ''/*''" by (simp add: ascii_lower_append)
  then show "endswith (ascii_lower e) ''/*''" by (simp add: endswith_def suffix_def)
qed


lemma ascii_lower_agrees: "agrees_on_ascii ascii_lower"
  by (simp add: agrees_on_ascii_def)

lemma ascii_lower_idempotent: "idempotent_lower ascii_lower"
  by (simp add: idempotent_lower_def ascii_lower_twice)

lemma ascii_lower_keeps_wildcard: "keeps_wildcard ascii_lower"
proof -
  have "ascii_lower ''/*'' = ''/*''"
    by (simp add: ascii_lower_def ascii_lower_chr_def)
  then have "ascii_lower (p @ ''/*'') = ascii_lower p @ ''/*''" for p
    by (simp add: ascii_lower_append)
  then show ?thesis
    using endswith_wildcard_lower by (simp add: keeps_wildcard_def endswith_def)
qed

lemma lower_of_ascii: "agrees_on_ascii lower \<Longrightarrow> is_ascii s \<Longrightarrow> lower s = ascii_lower s"
  by (simp add: agrees_on_ascii_def)

subsection \<open>The skip-list\<close>

lemma is_skipped_loop_strs:
  "is_skipped_loop lower (map VStr entries) item =
     Inr (\<exists>e \<in> set entries. lower e = item \<or>
            (endswith (lower e) ''/*'' \<and> startswith item (slice_to_minus2 (lower e))))"
proof (induction entries)
  case Nil
  then show ?case by simp
next
  case (Cons e es)
  have len: "startswith item (slice_to_minus2 (lower e)) \<Longrightarrow>
        length (slice_to_minus2 (lower e)) \<le> length item"
    by (auto simp: startswith_def prefix_def)
  show ?case using Cons len
    by (auto simp: Let_def)
qed

lemma keeps_wildcard_entry:
  assumes "keeps_wildcard lower"
  shows "endswith (lower e) ''/*'' \<and> startswith item (slice_to_minus2 (lower e)) \<longleftrightarrow>
         endswith e ''/*'' \<and> startswith item (lower (slice_to_minus2 e))"
proof (cases "endswith e ''/*''")
  case True
  then obtain p where e: "e = p @ ''/*''" by (auto simp: endswith_def suffix_def)
  have le: "lower e = lower p @ ''/*''"
    using assms e by (simp add: keeps_wildcard_def)
  have "slice_to_minus2 (lower e) = lower p" "slice_to_minus2 e = p"
    using e le by (simp_all add: slice_to_minus2_def)
  moreover have "endswith (lower e) ''/*''"
    using le by (simp add: endswith_def suffix_def)
  ultimately show ?thesis using True by simp
next
  case False
  then have "\<not> endswith (lower e) ''/*''"
    using assms by (auto simp: keeps_wildcard_def endswith_def)
  with False show ?thesis by simp
qed

lemma is_skipped_examples:
  assumes "agrees_on_ascii lower"
  shows "is_skipped_case_insensitively lower (VList [VStr ''GroupA/*'']) ''groupa/sub'' = Inr True"
    and "is_skipped_case_insensitively lower (VList [VStr ''GroupA/*'']) ''groupb/sub'' = Inr False"
    and "is_skipped_case_insensitively lower (VList [VStr ''GroupA/*'']) ''GroupA'' = Inr True"
    and "is_skipped_case_insensitively lower (VList [VStr ''myteam/*'']) ''myteamfoo'' = Inr True"
proof -
  note l = lower_of_ascii [OF assms]
  have a: "lower ''GroupA/*'' = ''groupa/*''" "lower ''groupa/sub'' = ''groupa/sub''"
    "lower ''groupb/sub'' = ''groupb/sub''" "lower ''GroupA'' = ''groupa''"
    "lower ''myteam/*'' = ''myteam/*''" "lower ''myteamfoo'' = ''myteamfoo''"
    by (simp_all add: l is_ascii_def ascii_lower_def ascii_lower_chr_def)
  show "is_skipped_case_insensitively lower (VList [VStr ''GroupA/*'']) ''groupa/sub'' = Inr True"
    and "is_skipped_case_insensitively lower (VList [VStr ''GroupA/*'']) ''groupb/sub'' = Inr False"
    and "is_skipped_case_insensitively lower (VList [VStr ''GroupA/*'']) ''GroupA'' = Inr True"
    and "is_skipped_case_insensitively lower (VList [VStr ''myteam/*'']) ''myteamfoo'' = Inr True"
    by (simp_all add: is_skipped_case_insensitively_def a suffix_to_prefix
                      endswith_def startswith_def slice_to_minus2_def)
qed

text \<open>
  Claim C6. Whatever \<^verbatim>\<open>str.lower\<close> does, on a skip-list of strings
  \<^verbatim>\<open>is_skipped_case_insensitively\<close> answers true exactly when the lower-cased item
  equals some lower-cased entry, or some lower-cased entry ends with \<^verbatim>\<open>/*\<close> and the
  lower-cased item starts with that lower-cased entry minus its last two
  characters. When lower-casing neither touches nor produces the suffix \<^verbatim>\<open>/*\<close>,
  that is: some entry ends with \<^verbatim>\<open>/*\<close> and the lower-cased item starts with the
  lower-cased rest of the entry. When lower-casing does to ASCII strings what
  \<^verbatim>\<open>str.lower\<close> does, then for the list \<^verbatim>\<open>["GroupA/*"]\<close>: \<^verbatim>\<open>groupa/sub\<close> is skipped,
  \<^verbatim>\<open>groupb/sub\<close> is not, \<^verbatim>\<open>GroupA\<close> (as long as the prefix) is. The match is a
  plain string prefix: \<^verbatim>\<open>myteam/*\<close> also skips \<^verbatim>\<open>myteamfoo\<close>.
\<close>

theorem is_skipped_case_insensitively_spec:
  "is_skipped_case_insensitively lower (VList (map VStr entries)) item =
     Inr (\<exists>e \<in> set entries.
            lower e = lower item \<or>
            (endswith (lower e) ''/*'' \<and> startswith (lower item) (slice_to_minus2 (lower e))))
   \<and> (keeps_wildcard lower \<longrightarrow>
        is_skipped_case_insensitively lower (VList (map VStr entries)) item =
          Inr (\<exists>e \<in> set entries.
                 lower e = lower item \<or>
                 (endswith e ''/*'' \<and> startswith (lower item) (lower (slice_to_minus2 e)))))
   \<and> (agrees_on_ascii lower \<longrightarrow>
        is_skipped_case_insensitively lower (VList [VStr ''GroupA/*'']) ''groupa/sub'' = Inr True
        \<and> is_skipped_case_insensitively lower (VList [VStr ''GroupA/*'']) ''groupb/sub'' = Inr False
        \<and> is_skipped_case_insensitively lower (VList [VStr ''GroupA/*'']) ''GroupA'' = Inr True
        \<and> is_skipped_case_insensitively lower (VList [VStr ''myteam/*'']) ''myteamfoo'' = Inr True)"
proof -
  have code: "is_skipped_case_insensitively lower (VList (map VStr entries)) item =
     Inr (\<exists>e \<in> set entries.
            lower e = lower item \<or>
            (endswith (lower e) ''/*'' \<and> startswith (lower item) (slice_to_minus2 (lower e))))"
    by (simp add: is_skipped_case_insensitively_def is_skipped_loop_strs
             del: is_skipped_loop.simps)
  have "is_skipped_case_insensitively lower (VList (map VStr entries)) item =
          Inr (\<exists>e \<in> set entries.
                 lower e = lower item \<or>
                 (endswith e ''/*'' \<and> startswith (lower item) (lower (slice_to_minus2 e))))"
    if "keeps_wildcard lower"
    unfolding code using keeps_wildcard_entry [OF that, of _ "lower item"] by simp
  with code is_skipped_examples [of lower] show ?thesis by blast
qed

theorem is_skipped_case_insensitively_spec_witness:
  "is_skipped_case_insensitively ascii_lower (VList (map VStr [''Other'', ''GroupA/*'']))
       ''groupa/sub'' = Inr True
   \<and> (\<exists>e \<in> set [''Other'', ''GroupA/*'']. ascii_lower e = ascii_lower ''groupa/sub'' \<or>
         (endswith e ''/*''
          \<and> startswith (ascii_lower ''groupa/sub'') (ascii_lower (slice_to_minus2 e))))
   \<and> is_skipped_case_insensitively ascii_lower (VList [VStr ''GroupA/*'']) ''groupb/sub''
       = Inr False"
  using is_skipped_case_insensitively_spec [of ascii_lower "[''Other'', ''GroupA/*'']" "''groupa/sub''"]
        ascii_lower_keeps_wildcard ascii_lower_agrees
  by (simp add: endswith_def startswith_def slice_to_minus2_def ascii_lower_def
                ascii_lower_chr_def suffix_to_prefix)

subsection \<open>The tree accessor\<close>

lemma get_call_unfold:
  "get_call config path supplied =
     (case descend config (str_split CHR ''|'' path) of
        Some v \<Rightarrow> Inr v
      | None \<Rightarrow>
          (case supplied of
             None \<Rightarrow> Inl KeyNotFoundException
           | Some d \<Rightarrow> if d = VNone then Inl KeyNotFoundException else Inr d))"
  by (simp add: get_call_def get_def split: option.splits)

lemma descend_step:
  "descend current (token # tokens) =
     (case current of
        VDict kvs \<Rightarrow> (case map_of kvs token of None \<Rightarrow> None | Some v \<Rightarrow> descend v tokens)
      | _ \<Rightarrow> None)"
  by (cases current) simp_all

text \<open>
  Claim C7, at a concrete input: a caller that supplies \<^verbatim>\<open>None\<close> as the default
  for an absent key gets \<^verbatim>\<open>KeyNotFoundException\<close>, not the default it supplied.
\<close>

theorem get_counterexample:
  "descend (VDict []) (str_split CHR ''|'' ''skip_groups'') = None
   \<and> get_call (VDict []) ''skip_groups'' (Some VNone) = Inl KeyNotFoundException
   \<and> get_call (VDict []) ''skip_groups'' (Some VNone) \<noteq> Inr VNone"
  by (simp add: get_call_def get_def)

text \<open>
  Claim C7, amended. \<^verbatim>\<open>get\<close> descends one segment of the \<^verbatim>\<open>|\<close>-separated path
  per step, by exact key, and only through dicts. When every segment resolves it
  returns the value reached. When a segment is absent or the value reached is
  not a dict, it returns the default if a default other than \<^verbatim>\<open>None\<close> was
  supplied, and raises \<^verbatim>\<open>KeyNotFoundException\<close> if no default or \<^verbatim>\<open>None\<close> was.
\<close>

theorem get_spec:
  "descend current [] = Some current
   \<and> descend current (token # tokens) =
       (case current of
          VDict kvs \<Rightarrow> (case map_of kvs token of None \<Rightarrow> None | Some v \<Rightarrow> descend v tokens)
        | _ \<Rightarrow> None)
   \<and> get_call config path supplied =
       (case descend config (str_split CHR ''|'' path) of
          Some v \<Rightarrow> Inr v
        | None \<Rightarrow>
            (case supplied of
               None \<Rightarrow> Inl KeyNotFoundException
             | Some d \<Rightarrow> if d = VNone then Inl KeyNotFoundException else Inr d))"
  using get_call_unfold descend_step by simp

theorem get_spec_witness:
  "get_call (VDict [(''a'', VDict [(''b'', VInt 7)])]) ''a|b'' None = Inr (VInt 7)
   \<and> get_call (VDict [(''a'', VDict [(''b'', VInt 7)])]) ''a|c'' (Some (VInt 0)) = Inr (VInt 0)
   \<and> get_call (VDict [(''a'', VDict [(''b'', VInt 7)])]) ''a|b|c'' (Some (VList [])) = Inr (VList [])
   \<and> get_call (VDict [(''a'', VDict [(''b'', VInt 7)])]) ''a|c'' None = Inl KeyNotFoundException"
  using get_spec [of "VDict [(''a'', VDict [(''b'', VInt 7)])]" "''a''" "[''b'']"
                     "VDict [(''a'', VDict [(''b'', VInt 7)])]" "''a|b''" None]
        get_spec [of "VDict [(''a'', VDict [(''b'', VInt 7)])]" "''a''" "[''c'']"
                     "VDict [(''a'', VDict [(''b'', VInt 7)])]" "''a|c''" "Some (VInt 0)"]
        get_spec [of "VDict [(''a'', VDict [(''b'', VInt 7)])]" "''a''" "[''b'', ''c'']"
                     "VDict [(''a'', VDict [(''b'', VInt 7)])]" "''a|b|c''" "Some (VList [])"]
        get_spec [of "VDict [(''a'', VDict [(''b'', VInt 7)])]" "''a''" "[''c'']"
                     "VDict [(''a'', VDict [(''b'', VInt 7)])]" "''a|c''" None]
  by simp

text \<open>
  Claim C9. \<^verbatim>\<open>get(path, None)\<close> is \<^verbatim>\<open>get(path)\<close>: when the traversal fails it
  raises \<^verbatim>\<open>KeyNotFoundException\<close> and does not return \<^verbatim>\<open>None\<close>.
\<close>

theorem get_default_None:
  "get_call config path (Some VNone) = get_call config path None
   \<and> (descend config (str_split CHR ''|'' path) = None \<longrightarrow>
        get_call config path (Some VNone) = Inl KeyNotFoundException
        \<and> get_call config path (Some VNone) \<noteq> Inr VNone)"
  by (simp add: get_call_def get_def)

theorem get_default_None_witness:
  "descend (VDict [(''a'', VInt 1)]) (str_split CHR ''|'' ''b'') = None
   \<and> get_call (VDict [(''a'', VInt 1)]) ''b'' (Some VNone) = Inl KeyNotFoundException
   \<and> get_call (VDict [(''a'', VInt 1)]) ''b'' None = Inl KeyNotFoundException"
  using get_default_None [of "VDict [(''a'', VInt 1)]" "''b''"]
  by auto

subsection \<open>Listing the projects\<close>

lemma get_projects_of_dict:
  "get config ''projects_and_groups'' VNone = Inr (VDict kvs) \<Longrightarrow>
   get_projects config =
     Inr (sort (filter (\<lambda>k. k \<noteq> ''*'' \<and> \<not> endswith k ''/*'') (map fst kvs)))"
  by (simp add: get_projects_def)

text \<open>
  Claim C8. When \<^verbatim>\<open>projects_and_groups\<close> is a dict, \<^verbatim>\<open>get_projects\<close> returns its
  keys other than \<^verbatim>\<open>*\<close> that do not end in \<^verbatim>\<open>/*\<close>, each as often as it is a key,
  in ascending order of the raw strings (capital letters before small ones). The
  keys \<^verbatim>\<open>z/proj2\<close>, \<^verbatim>\<open>*\<close>, \<^verbatim>\<open>a/*\<close>, \<^verbatim>\<open>a/proj1\<close> give \<^verbatim>\<open>a/proj1\<close>, \<^verbatim>\<open>z/proj2\<close>.
\<close>

theorem get_projects_spec:
  "(get config ''projects_and_groups'' VNone = Inr (VDict kvs) \<longrightarrow>
      (\<exists>projects. get_projects config = Inr projects
         \<and> sorted projects
         \<and> mset projects = mset (filter (\<lambda>k. k \<noteq> ''*'' \<and> \<not> endswith k ''/*'') (map fst kvs))
         \<and> set projects = {k \<in> fst ` set kvs. k \<noteq> ''*'' \<and> \<not> endswith k ''/*''}))
   \<and> get_projects (VDict [(''projects_and_groups'',
          VDict [(''z/proj2'', VDict []), (''*'', VDict []), (''a/*'', VDict []),
                 (''a/proj1'', VDict [])])])
       = Inr [''a/proj1'', ''z/proj2'']
   \<and> get_projects (VDict [(''projects_and_groups'',
          VDict [(''a/proj'', VDict []), (''B/proj'', VDict [])])])
       = Inr [''B/proj'', ''a/proj'']"
proof -
  have "get config ''projects_and_groups'' VNone = Inr (VDict kvs) \<Longrightarrow>
      (\<exists>projects. get_projects config = Inr projects
         \<and> sorted projects
         \<and> mset projects = mset (filter (\<lambda>k. k \<noteq> ''*'' \<and> \<not> endswith k ''/*'') (map fst kvs))
         \<and> set projects = {k \<in> fst ` set kvs. k \<noteq> ''*'' \<and> \<not> endswith k ''/*''})"
    by (auto simp: get_projects_of_dict)
  moreover have "get_projects (VDict [(''projects_and_groups'',
          VDict [(''z/proj2'', VDict []), (''*'', VDict []), (''a/*'', VDict []),
                 (''a/proj1'', VDict [])])])
       = Inr [''a/proj1'', ''z/proj2'']"
    by (simp add: get_projects_def get_def endswith_def suffix_to_prefix)
  moreover have "get_projects (VDict [(''projects_and_groups'',
          VDict [(''a/proj'', VDict []), (''B/proj'', VDict [])])])
       = Inr [''B/proj'', ''a/proj'']"
    by (simp add: get_projects_def get_def endswith_def suffix_to_prefix)
  ultimately show ?thesis by blast
qed

theorem get_projects_spec_witness:
  "get (VDict [(''projects_and_groups'', VDict [(''g/p'', VNone), (''g/*'', VNone)])])
       ''projects_and_groups'' VNone = Inr (VDict [(''g/p'', VNone), (''g/*'', VNone)])
   \<and> get_projects (VDict [(''projects_and_groups'', VDict [(''g/p'', VNone), (''g/*'', VNone)])])
       = Inr [''g/p'']"
proof -
  have g: "get (VDict [(''projects_and_groups'', VDict [(''g/p'', VNone), (''g/*'', VNone)])])
       ''projects_and_groups'' VNone = Inr (VDict [(''g/p'', VNone), (''g/*'', VNone)])"
    by (simp add: get_def)
  obtain projects where
    p: "get_projects (VDict [(''projects_and_groups'', VDict [(''g/p'', VNone), (''g/*'', VNone)])])
          = Inr projects"
    and m: "mset projects = mset (filter (\<lambda>k. k \<noteq> ''*'' \<and> \<not> endswith k ''/*'')
              (map fst [(''g/p'', VNone), (''g/*'', VNone)]))"
    and s: "sorted projects"
    using get_projects_spec [of "VDict [(''projects_and_groups'', VDict [(''g/p'', VNone), (''g/*'', VNone)])]"
                                "[(''g/p'', VNone), (''g/*'', VNone)]"] g
    by blast
  from properties_for_sort [OF m s] have "projects = [''g/p'']"
    by (simp add: endswith_def suffix_to_prefix)
  with p g show ?thesis by simp
qed

subsection \<open>The duplicate detector\<close>

lemma second_occurrence_count:
  "occurrences < 2 \<Longrightarrow>
   second_occurrence lower first_item xs occurrences \<longleftrightarrow>
     2 \<le> occurrences + length (filter (\<lambda>s. lower first_item = lower s) xs)"
  by (induction xs arbitrary: occurrences) auto

lemma count_list_filter: "count_list xs x = length (filter (\<lambda>y. x = y) xs)"
  by (induction xs) auto

lemma second_occurrence_lowered:
  "second_occurrence lower first_item (map lower items) 0 \<longleftrightarrow>
     2 \<le> count_list (map (\<lambda>y. lower (lower y)) items) (lower first_item)"
  by (simp add: second_occurrence_count count_list_filter filter_map o_def)

lemma remdups_lengths_differ:
  "length (remdups items) \<noteq> length (remdups (map f items)) \<longleftrightarrow>
     (\<exists>x \<in> set items. \<exists>y \<in> set items. x \<noteq> y \<and> f x = f y)"
proof -
  have "length (remdups items) = card (set items)"
    by (simp add: length_remdups_card_conv)
  moreover have "length (remdups (map f items)) = card (f ` set items)"
    by (simp add: length_remdups_card_conv)
  moreover have "card (f ` set items) = card (set items) \<longleftrightarrow> inj_on f (set items)"
    by (metis List.finite_set card_image eq_card_imp_inj_on)
  ultimately show ?thesis by (auto simp: inj_on_def)
qed

lemma count_list_two:
  assumes "x \<in> set items" "y \<in> set items" "x \<noteq> y" "f x = f y"
  shows "2 \<le> count_list (map f items) (f x)"
  using assms
proof (induction items)
  case Nil
  then show ?case by simp
next
  case (Cons a items)
  have pos: "\<And>z. z \<in> set items \<Longrightarrow> 1 \<le> count_list (map f items) (f z)"
    by (metis One_nat_def Suc_leI count_list_0_iff image_eqI list.set_map not_gr_zero)
  show ?case
  proof (cases "a = x")
    case True
    then have "y \<in> set items" using Cons.prems by auto
    from pos[OF this] show ?thesis using True Cons.prems by simp
  next
    case ax: False
    show ?thesis
    proof (cases "a = y")
      case True
      then have "x \<in> set items" using Cons.prems by auto
      from pos[OF this] show ?thesis using True Cons.prems by simp
    next
      case False
      then show ?thesis using ax Cons by auto
    qed
  qed
qed

lemma count_list_two_distinct:
  assumes "distinct items" "x \<in> set items"
  shows "2 \<le> count_list (map f items) (f x) \<longleftrightarrow> (\<exists>y \<in> set items. y \<noteq> x \<and> f y = f x)"
proof
  assume two: "2 \<le> count_list (map f items) (f x)"
  show "\<exists>y \<in> set items. y \<noteq> x \<and> f y = f x"
  proof (rule ccontr)
    assume "\<not> ?thesis"
    then have "filter (\<lambda>z. f x = f z) items = filter (\<lambda>z. z = x) items"
      by (intro filter_cong) auto
    moreover have "length (filter (\<lambda>z. z = x) items) \<le> 1"
      using assms(1) by (induction items) (auto simp: filter_empty_conv)
    ultimately show False using two
      by (simp add: count_list_filter filter_map o_def)
  qed
next
  assume "\<exists>y \<in> set items. y \<noteq> x \<and> f y = f x"
  then show "2 \<le> count_list (map f items) (f x)"
    using count_list_two[of x items _ f] assms(2) by metis
qed

lemma almost_duplicates_among_exact:
  "almost_duplicates_among lower items =
     (if \<exists>x \<in> set items. \<exists>y \<in> set items. x \<noteq> y \<and> lower x = lower y
      then filter (\<lambda>x. 2 \<le> count_list (map (\<lambda>y. lower (lower y)) items) (lower x)) items
      else [])"
  unfolding almost_duplicates_among_def Let_def remdups_lengths_differ second_occurrence_lowered
  by simp

lemma almost_duplicates_among_eq:
  assumes "idempotent_lower lower"
  shows "almost_duplicates_among lower items =
     (if \<exists>x \<in> set items. \<exists>y \<in> set items. x \<noteq> y \<and> lower x = lower y
      then filter (\<lambda>x. 2 \<le> count_list (map lower items) (lower x)) items
      else [])"
proof -
  have "(\<lambda>y. lower (lower y)) = lower"
    using assms by (auto simp: idempotent_lower_def)
  then show ?thesis by (subst almost_duplicates_among_exact) (simp only:)
qed

lemma almost_duplicates_among_nonempty:
  assumes "idempotent_lower lower"
  shows "almost_duplicates_among lower items \<noteq> [] \<longleftrightarrow>
     (\<exists>x \<in> set items. \<exists>y \<in> set items. x \<noteq> y \<and> lower x = lower y)"
proof
  assume "almost_duplicates_among lower items \<noteq> []"
  then show "\<exists>x \<in> set items. \<exists>y \<in> set items. x \<noteq> y \<and> lower x = lower y"
    by (simp add: almost_duplicates_among_exact split: if_splits)
next
  assume "\<exists>x \<in> set items. \<exists>y \<in> set items. x \<noteq> y \<and> lower x = lower y"
  then obtain x y where xy: "x \<in> set items" "y \<in> set items" "x \<noteq> y" "lower x = lower y"
    by blast
  then have "x \<in> set (filter (\<lambda>x. 2 \<le> count_list (map lower items) (lower x)) items)"
    using count_list_two[OF xy] by simp
  then show "almost_duplicates_among lower items \<noteq> []"
    using xy by (auto simp: almost_duplicates_among_eq [OF assms] filter_empty_conv)
qed

lemma almost_duplicates_among_distinct:
  assumes "idempotent_lower lower" and "distinct items"
  shows "almost_duplicates_among lower items =
           filter (\<lambda>x. \<exists>y \<in> set items. y \<noteq> x \<and> lower y = lower x) items"
proof -
  have f: "filter (\<lambda>x. 2 \<le> count_list (map lower items) (lower x)) items =
        filter (\<lambda>x. \<exists>y \<in> set items. y \<noteq> x \<and> lower y = lower x) items"
    by (intro filter_cong refl) (simp add: count_list_two_distinct[OF assms(2)])
  show ?thesis
  proof (cases "\<exists>x \<in> set items. \<exists>y \<in> set items. x \<noteq> y \<and> lower x = lower y")
    case True
    then show ?thesis by (simp add: almost_duplicates_among_eq [OF assms(1)] f)
  next
    case False
    then have "filter (\<lambda>x. \<exists>y \<in> set items. y \<noteq> x \<and> lower y = lower x) items = []"
      by (auto simp: filter_empty_conv)
    moreover have "almost_duplicates_among lower items = []"
      using False by (subst almost_duplicates_among_exact) (simp only: if_False)
    ultimately show ?thesis by simp
  qed
qed

lemma as_strings_map_VStr: "as_strings (map VStr items) = Inr items"
  by (induction items) auto

lemma as_strings_keys: "as_strings (map (\<lambda>kv. VStr (fst kv)) kvs) = Inr (map fst kvs)"
  by (induction kvs) auto

lemma find_almost_duplicate_both_keys:
  assumes "agrees_on_ascii lower"
  shows "find_almost_duplicate lower
     (VDict [(''projects_and_groups'', VDict [(''Team'', VDict []), (''team'', VDict [])])])
     ''projects_and_groups'' = Inr [''Team'', ''team'']"
proof -
  note l = lower_of_ascii [OF assms]
  have a: "lower ''Team'' = ''team''" "lower ''team'' = ''team''"
    by (simp_all add: l is_ascii_def ascii_lower_def ascii_lower_chr_def)
  show ?thesis
    by (simp add: find_almost_duplicate_def get_def almost_duplicates_among_def a)
qed

text \<open>
  Claim C4, at a concrete input: for the section \<^verbatim>\<open>{"Team": {}, "team": {}}\<close>, one
  collision group, the detector returns both keys, not one representative. The
  keys are ASCII, so every lower-casing that does to ASCII strings what
  \<^verbatim>\<open>str.lower\<close> does gives this result; it is stated for \<open>ascii_lower\<close>.
\<close>

theorem find_almost_duplicate_counterexample:
  "find_almost_duplicate ascii_lower
     (VDict [(''projects_and_groups'', VDict [(''Team'', VDict []), (''team'', VDict [])])])
     ''projects_and_groups'' = Inr [''Team'', ''team'']
   \<and> ascii_lower ''Team'' = ascii_lower ''team''"
  using find_almost_duplicate_both_keys [OF ascii_lower_agrees]
  by (simp add: ascii_lower_def ascii_lower_chr_def)

lemma find_almost_duplicate_dict:
  "get config path VNone = Inr (VDict kvs) \<Longrightarrow>
   find_almost_duplicate lower config path = Inr (almost_duplicates_among lower (map fst kvs))"
  by (simp add: find_almost_duplicate_def as_strings_keys)

lemma find_almost_duplicate_list:
  "get config path VNone = Inr (VList (map VStr items)) \<Longrightarrow>
   find_almost_duplicate lower config path = Inr (almost_duplicates_among lower items)"
  by (simp add: find_almost_duplicate_def as_strings_map_VStr)

text \<open>
  Claim C4, amended. The detector reads the keys of a dict section, or the
  elements of a list of strings. Whatever \<^verbatim>\<open>str.lower\<close> does: when no two different
  items are equal once lower-cased, it returns the empty list; otherwise it
  returns every item, in the original order, whose lower-cased form is found at
  least twice among the lower-cased items, lower-cased once more as the code
  does. With a lower-casing that changes nothing when done twice, as
  \<^verbatim>\<open>str.lower\<close> is: when two different items are equal once lower-cased, the
  result holds every item whose lower-cased form occurs at least twice among the
  lower-cased items, so all the members of every collision group, and it is not
  empty; and for items without repetition (the keys of a dict) the result is
  exactly the items that have another item equal to them once lower-cased.
\<close>

theorem find_almost_duplicate_spec:
  "(get config path VNone = Inr (VDict kvs) \<longrightarrow>
      find_almost_duplicate lower config path = Inr (almost_duplicates_among lower (map fst kvs)))
   \<and> (get config path VNone = Inr (VList (map VStr items)) \<longrightarrow>
      find_almost_duplicate lower config path = Inr (almost_duplicates_among lower items))
   \<and> almost_duplicates_among lower items =
       (if \<exists>x \<in> set items. \<exists>y \<in> set items. x \<noteq> y \<and> lower x = lower y
        then filter (\<lambda>x. 2 \<le> count_list (map (\<lambda>y. lower (lower y)) items) (lower x)) items
        else [])
   \<and> (idempotent_lower lower \<longrightarrow>
        almost_duplicates_among lower items =
          (if \<exists>x \<in> set items. \<exists>y \<in> set items. x \<noteq> y \<and> lower x = lower y
           then filter (\<lambda>x. 2 \<le> count_list (map lower items) (lower x)) items
           else [])
        \<and> (almost_duplicates_among lower items \<noteq> [] \<longleftrightarrow>
             (\<exists>x \<in> set items. \<exists>y \<in> set items. x \<noteq> y \<and> lower x = lower y))
        \<and> (distinct items \<longrightarrow>
             almost_duplicates_among lower items =
               filter (\<lambda>x. \<exists>y \<in> set items. y \<noteq> x \<and> lower y = lower x) items))"
  using find_almost_duplicate_dict [of config path kvs lower]
        find_almost_duplicate_list [of config path items lower]
        almost_duplicates_among_exact [of lower items]
        almost_duplicates_among_eq [of lower items]
        almost_duplicates_among_nonempty [of lower items]
        almost_duplicates_among_distinct [of lower items]
  by blast

theorem find_almost_duplicate_spec_witness:
  "find_almost_duplicate ascii_lower
     (VDict [(''skip_groups'', VList [VStr ''A'', VStr ''b'', VStr ''a''])])
     ''skip_groups'' = Inr [''A'', ''a'']
   \<and> find_almost_duplicate ascii_lower
     (VDict [(''skip_groups'', VList [VStr ''A'', VStr ''b'', VStr ''c''])])
     ''skip_groups'' = Inr []"
proof -
  define c1 where "c1 = VDict [(''skip_groups'', VList [VStr ''A'', VStr ''b'', VStr ''a''])]"
  define c2 where "c2 = VDict [(''skip_groups'', VList [VStr ''A'', VStr ''b'', VStr ''c''])]"
  define i1 where "i1 = [''A'', ''b'', ''a'']"
  define i2 where "i2 = [''A'', ''b'', ''c'']"
  have g1: "get c1 ''skip_groups'' VNone = Inr (VList (map VStr i1))"
    by (simp add: get_def c1_def i1_def)
  have g2: "get c2 ''skip_groups'' VNone = Inr (VList (map VStr i2))"
    by (simp add: get_def c2_def i2_def)
  have d1: "distinct i1" and d2: "distinct i2"
    by (simp_all add: i1_def i2_def)
  have "find_almost_duplicate ascii_lower c1 ''skip_groups'' =
          Inr (filter (\<lambda>x. \<exists>y \<in> set i1. y \<noteq> x \<and> ascii_lower y = ascii_lower x) i1)"
  proof -
    note spec = find_almost_duplicate_spec [of c1 "''skip_groups''" "[]" ascii_lower i1]
    have "find_almost_duplicate ascii_lower c1 ''skip_groups'' =
            Inr (almost_duplicates_among ascii_lower i1)"
      by (rule spec [THEN conjunct2, THEN conjunct1, THEN mp, OF g1])
    moreover have "almost_duplicates_among ascii_lower i1 =
            filter (\<lambda>x. \<exists>y \<in> set i1. y \<noteq> x \<and> ascii_lower y = ascii_lower x) i1"
      by (rule spec [THEN conjunct2, THEN conjunct2, THEN conjunct2, THEN mp,
                     OF ascii_lower_idempotent, THEN conjunct2, THEN conjunct2, THEN mp, OF d1])
    ultimately show ?thesis by simp
  qed
  moreover have "find_almost_duplicate ascii_lower c2 ''skip_groups'' =
          Inr (filter (\<lambda>x. \<exists>y \<in> set i2. y \<noteq> x \<and> ascii_lower y = ascii_lower x) i2)"
  proof -
    note spec = find_almost_duplicate_spec [of c2 "''skip_groups''" "[]" ascii_lower i2]
    have "find_almost_duplicate ascii_lower c2 ''skip_groups'' =
            Inr (almost_duplicates_among ascii_lower i2)"
      by (rule spec [THEN conjunct2, THEN conjunct1, THEN mp, OF g2])
    moreover have "almost_duplicates_among ascii_lower i2 =
            filter (\<lambda>x. \<exists>y \<in> set i2. y \<noteq> x \<and> ascii_lower y = ascii_lower x) i2"
      by (rule spec [THEN conjunct2, THEN conjunct2, THEN conjunct2, THEN mp,
                     OF ascii_lower_idempotent, THEN conjunct2, THEN conjunct2, THEN mp, OF d2])
    ultimately show ?thesis by simp
  qed
  ultimately show ?thesis
    by (simp add: c1_def c2_def i1_def i2_def ascii_lower_def ascii_lower_chr_def)
qed

subsection \<open>The scan at load time\<close>

lemma get_Inl: "get config path dflt = Inl e \<Longrightarrow> e = KeyNotFoundException"
  by (auto simp: get_def split: option.splits if_splits)

lemma get_dflt_truthy:
  "get config path (VInt 0) = Inr v \<Longrightarrow> truthy v \<Longrightarrow> get config path VNone = Inr v"
  by (auto simp: get_def split: option.splits if_splits)

lemma py_iter_Inl: "py_iter v = Inl e \<Longrightarrow> e = TypeError"
  by (cases v) auto

lemma as_strings_Inl: "as_strings xs = Inl e \<Longrightarrow> e = AttributeError"
  by (induction xs rule: as_strings.induct) (auto split: sum.splits)

lemma find_almost_duplicate_no_exit: "find_almost_duplicate lower config path \<noteq> Inl (SystemExit f)"
  by (auto simp: find_almost_duplicate_def split: sum.splits
           dest: get_Inl py_iter_Inl as_strings_Inl)

lemma check_section_exit:
  assumes "check_section lower config p = Inl (SystemExit (AlmostDuplicateKeys q dups))"
  shows "q = p \<and> (\<exists>v. get config p VNone = Inr v \<and> truthy v)"
proof -
  obtain v where v: "get config p (VInt 0) = Inr v"
    by (cases "get config p (VInt 0)") (auto dest: get_Inl simp: get_def split: option.splits)
  with assms have t: "truthy v"
    by (auto simp: check_section_def split: if_splits)
  with assms v have "q = p"
    using find_almost_duplicate_no_exit [of lower config p]
    by (auto simp: check_section_def split: sum.splits if_splits)
  with get_dflt_truthy [OF v t] t show ?thesis by blast
qed

lemma check_sections_exit:
  "check_sections lower config ps = Inl (SystemExit (AlmostDuplicateKeys q dups)) \<Longrightarrow>
   \<exists>v. get config q VNone = Inr v \<and> truthy v"
proof (induction ps)
  case Nil
  then show ?case by simp
next
  case (Cons p ps)
  then show ?case
    by (cases "check_section lower config p") (auto dest: check_section_exit)
qed

lemma check_file_tree_no_duplicates:
  "check_file_tree tree \<noteq> Inl (SystemExit (AlmostDuplicateKeys q dups))"
  by (cases tree) auto

lemma load_config_no_duplicates:
  "load_config ext cs cp \<noteq> Inl (SystemExit (AlmostDuplicateKeys q dups))"
  using check_file_tree_no_duplicates
  by (auto simp: load_config_def Let_def split: option.splits sum.splits bool.splits)

text \<open>
  Claim C10. When a protected section is absent from the tree or its value is
  falsy (empty, \<^verbatim>\<open>None\<close>, \<^verbatim>\<open>0\<close>, \<^verbatim>\<open>False\<close>), the round of the scan for that section
  does nothing, the scan does not end with the almost-duplicate error for that
  section, and neither does the construction from any source that loads this
  tree.
\<close>

theorem falsy_section_skipped:
  assumes "\<forall>v. get config path VNone = Inr v \<longrightarrow> \<not> truthy v"
  shows "check_section lower config path = Inr ()
     \<and> (\<forall>dups. find_almost_duplicates lower config \<noteq> Inl (SystemExit (AlmostDuplicateKeys path dups)))
     \<and> (\<forall>ext config_path config_string self dups.
          load_config ext config_string config_path = Inr self \<and> self_config self = config \<longrightarrow>
          Configuration_init lower ext config_path config_string
            \<noteq> Inl (SystemExit (AlmostDuplicateKeys path dups)))"
proof -
  have a: "check_section lower config path = Inr ()"
  proof (cases "get config path (VInt 0)")
    case (Inl e)
    then show ?thesis by (auto simp: get_def split: option.splits)
  next
    case (Inr v)
    have "\<not> truthy v"
      using get_dflt_truthy [OF Inr] assms by blast
    with Inr show ?thesis by (simp add: check_section_def)
  qed
  have b: "find_almost_duplicates lower config \<noteq> Inl (SystemExit (AlmostDuplicateKeys path dups))" for dups
    using check_sections_exit [of lower config protected_sections path dups] assms
    by (auto simp: find_almost_duplicates_def)
  have c: "Configuration_init lower ext config_path config_string
            \<noteq> Inl (SystemExit (AlmostDuplicateKeys path dups))"
    if "load_config ext config_string config_path = Inr self" "self_config self = config"
    for ext config_path config_string self dups
    using that b [of dups]
    by (auto simp: Configuration_init_def split: sum.splits)
  from a b c show ?thesis by blast
qed

theorem falsy_section_skipped_witness:
  "check_section ascii_lower (VDict [(''projects_and_groups'', VDict []), (''skip_groups'', VNone)])
     ''projects_and_groups'' = Inr ()
   \<and> check_section ascii_lower (VDict [(''projects_and_groups'', VDict []), (''skip_groups'', VNone)])
     ''skip_groups'' = Inr ()
   \<and> check_section ascii_lower (VDict [(''projects_and_groups'', VDict []), (''skip_groups'', VNone)])
     ''skip_projects'' = Inr ()"
  using falsy_section_skipped
          [of "VDict [(''projects_and_groups'', VDict []), (''skip_groups'', VNone)]"
              "''projects_and_groups''" ascii_lower]
        falsy_section_skipped
          [of "VDict [(''projects_and_groups'', VDict []), (''skip_groups'', VNone)]"
              "''skip_groups''" ascii_lower]
        falsy_section_skipped
          [of "VDict [(''projects_and_groups'', VDict []), (''skip_groups'', VNone)]"
              "''skip_projects''" ascii_lower]
  by (simp add: get_def)

subsection \<open>The version check\<close>

lemma version_check_absent_for_string:
  "Configuration_init lower (example_externals (VDict [(''config_version'', VInt 1)]))
       None (Some ''config_version: 1'')
     = Inr \<lparr>self_config = VDict [(''config_version'', VInt 1)], self_config_dir = ''.''\<rparr>
   \<and> Configuration_init lower (example_externals (VDict [(''skip_groups'', VList [])]))
       None (Some ''skip_groups: []'')
     = Inr \<lparr>self_config = VDict [(''skip_groups'', VList [])], self_config_dir = ''.''\<rparr>"
  by (simp add: Configuration_init_def load_config_def example_externals_def
                find_almost_duplicates_def protected_sections_def check_section_def get_def)

text \<open>
  Claim C3, at a concrete input: constructed from an inline string, a tree with
  \<^verbatim>\<open>config_version: 1\<close>, and one with no \<^verbatim>\<open>config_version\<close>, load without error.
\<close>

theorem version_check_counterexample:
  "Configuration_init ascii_lower (example_externals (VDict [(''config_version'', VInt 1)]))
       None (Some ''config_version: 1'')
     = Inr \<lparr>self_config = VDict [(''config_version'', VInt 1)], self_config_dir = ''.''\<rparr>
   \<and> Configuration_init ascii_lower (example_externals (VDict [(''skip_groups'', VList [])]))
       None (Some ''skip_groups: []'')
     = Inr \<lparr>self_config = VDict [(''skip_groups'', VList [])], self_config_dir = ''.''\<rparr>"
  by (rule version_check_absent_for_string)

lemma load_config_from_file:
  assumes "\<not> given config_string"
    and "read_file ext (resolve_config_path ext config_path) = Some content"
    and "yaml_safe_load ext content = Some tree"
  shows "load_config ext config_string config_path =
           (case check_file_tree tree of
              Inl e \<Rightarrow> Inl e
            | Inr _ \<Rightarrow> Inr \<lparr>self_config = tree,
                           self_config_dir = path_dirname ext (resolve_config_path ext config_path)\<rparr>)"
  using assms by (cases config_string) (simp_all add: load_config_def Let_def)

lemma load_config_from_string:
  assumes "\<not> given config_path" and "s \<noteq> []"
    and "yaml_safe_load ext (dedent ext s) = Some tree"
  shows "load_config ext (Some s) config_path = Inr \<lparr>self_config = tree, self_config_dir = ''.''\<rparr>"
  using assms by (simp add: load_config_def)

text \<open>
  Claim C3, amended. Constructed from a file (no inline string, or an empty
  one), a parsed dict with no truthy \<^verbatim>\<open>example_config\<close> whose \<^verbatim>\<open>config_version\<close>
  is absent or 1 ends the construction with the unsupported-version error, and
  one whose \<^verbatim>\<open>config_version\<close> is 2 passes the checks of the loader. Constructed
  from an inline string, the tree is loaded with no version check.
\<close>

theorem version_check_spec:
  "(\<not> given config_string
      \<and> read_file ext (resolve_config_path ext config_path) = Some content
      \<and> yaml_safe_load ext content = Some (VDict kvs)
      \<and> \<not> truthy (dict_get kvs ''example_config'' VNone) \<longrightarrow>
        ((map_of kvs ''config_version'' = None \<or> map_of kvs ''config_version'' = Some (VInt 1)) \<longrightarrow>
           Configuration_init lower ext config_path config_string = Inl (SystemExit UnsupportedConfigVersion))
      \<and> (map_of kvs ''config_version'' = Some (VInt 2) \<longrightarrow>
           load_config ext config_string config_path =
             Inr \<lparr>self_config = VDict kvs,
                  self_config_dir = path_dirname ext (resolve_config_path ext config_path)\<rparr>))
   \<and> (\<not> given config_path \<and> s \<noteq> [] \<and> yaml_safe_load ext (dedent ext s) = Some tree \<longrightarrow>
        load_config ext (Some s) config_path = Inr \<lparr>self_config = tree, self_config_dir = ''.''\<rparr>)"
proof -
  have from_file: "(map_of kvs ''config_version'' = None \<or> map_of kvs ''config_version'' = Some (VInt 1) \<longrightarrow>
           Configuration_init lower ext config_path config_string = Inl (SystemExit UnsupportedConfigVersion))
      \<and> (map_of kvs ''config_version'' = Some (VInt 2) \<longrightarrow>
           load_config ext config_string config_path =
             Inr \<lparr>self_config = VDict kvs,
                  self_config_dir = path_dirname ext (resolve_config_path ext config_path)\<rparr>)"
    if "\<not> given config_string"
      "read_file ext (resolve_config_path ext config_path) = Some content"
      "yaml_safe_load ext content = Some (VDict kvs)"
      "\<not> truthy (dict_get kvs ''example_config'' VNone)"
    using load_config_from_file [OF that(1,2,3)] that(4)
    by (auto simp: Configuration_init_def dict_get_def)
  show ?thesis
    using from_file load_config_from_string [of config_path s ext tree] by blast
qed

theorem version_check_spec_witness:
  "Configuration_init ascii_lower (example_externals (VDict [(''skip_groups'', VList [])]))
       (Some ''config.yml'') None = Inl (SystemExit UnsupportedConfigVersion)
   \<and> Configuration_init ascii_lower (example_externals (VDict [(''config_version'', VInt 1)]))
       (Some ''config.yml'') None = Inl (SystemExit UnsupportedConfigVersion)
   \<and> load_config (example_externals (VDict [(''config_version'', VInt 2)]))
       None (Some ''config.yml'')
     = Inr \<lparr>self_config = VDict [(''config_version'', VInt 2)], self_config_dir = ''/work''\<rparr>
   \<and> load_config (example_externals (VDict [(''config_version'', VInt 1)]))
       (Some ''config_version: 1'') None
     = Inr \<lparr>self_config = VDict [(''config_version'', VInt 1)], self_config_dir = ''.''\<rparr>"
proof -
  have r: "resolve_config_path (example_externals t) (Some ''config.yml'') = ''/work/config.yml''" for t
    by (simp add: resolve_config_path_def example_externals_def)
  have e: "read_file (example_externals t) ''/work/config.yml'' = Some ''text''"
          "yaml_safe_load (example_externals t) x = Some t"
          "path_dirname (example_externals t) x = ''/work''"
          "dedent (example_externals t) x = x" for t x
    by (simp_all add: example_externals_def)
  show ?thesis
    using version_check_spec
            [of None "example_externals (VDict [(''skip_groups'', VList [])])" "Some ''config.yml''"
                "''text''" "[(''skip_groups'', VList [])]" ascii_lower "''x''" "VNone"]
          version_check_spec
            [of None "example_externals (VDict [(''config_version'', VInt 1)])" "Some ''config.yml''"
                "''text''" "[(''config_version'', VInt 1)]" ascii_lower "''x''" "VNone"]
          version_check_spec
            [of None "example_externals (VDict [(''config_version'', VInt 2)])" "Some ''config.yml''"
                "''text''" "[(''config_version'', VInt 2)]" ascii_lower "''x''" "VNone"]
          version_check_spec
            [of None "example_externals (VDict [(''config_version'', VInt 1)])" None
                "''text''" "[]" ascii_lower "''config_version: 1''" "VDict [(''config_version'', VInt 1)]"]
    by (simp add: r e dict_get_def)
qed

subsection \<open>The merge on trees\<close>

text \<open>Key by key, the more specific dict wins unless both values are dicts, which
  are merged; the empty dict is neutral on both sides.\<close>

lemma map_of_update_other: "key \<noteq> k \<Longrightarrow> map_of (AList.update k v al) key = map_of al key"
  by (simp add: update_conv')

lemma map_of_merged_head_other:
  "key \<noteq> k \<Longrightarrow>
   map_of (case map_of dst k of
             Some (VDict d) \<Rightarrow> AList.update k (VDict (deepmerge d s)) dst
           | _ \<Rightarrow> AList.update k (VDict s) dst) key = map_of dst key"
  by (cases "map_of dst k"; simp add: map_of_update_other split: pyval.splits)

lemma map_of_deepmerge_notin:
  "key \<notin> fst ` set src \<Longrightarrow> map_of (deepmerge dst src) key = map_of dst key"
proof (induction dst src rule: deepmerge.induct)
  case (2 dst k s src)
  then show ?case by (simp add: map_of_merged_head_other)
qed (simp_all add: map_of_update_other)


lemma map_of_merged_head_same:
  "map_of (case map_of dst k of
             Some (VDict d) \<Rightarrow> AList.update k (VDict (deepmerge d s)) dst
           | _ \<Rightarrow> AList.update k (VDict s) dst) k =
     (case map_of dst k of
        Some (VDict d) \<Rightarrow> Some (VDict (deepmerge d s))
      | _ \<Rightarrow> Some (VDict s))"
  by (cases "map_of dst k"; simp add: update_conv' split: pyval.splits)

lemma deepmerge_Cons_other:
  "(\<And>s. v \<noteq> VDict s) \<Longrightarrow> deepmerge dst ((k, v) # src) = deepmerge (AList.update k v dst) src"
  by (cases v) auto

lemma map_of_deepmerge:
  "distinct (map fst src) \<Longrightarrow>
   map_of (deepmerge dst src) key =
     (case map_of src key of
        None \<Rightarrow> map_of dst key
      | Some (VDict s) \<Rightarrow>
          (case map_of dst key of
             Some (VDict d) \<Rightarrow> Some (VDict (deepmerge d s))
           | _ \<Rightarrow> Some (VDict s))
      | Some v \<Rightarrow> Some v)"
proof (induction src arbitrary: dst)
  case Nil
  then show ?case by simp
next
  case (Cons kv src)
  obtain k v where kv: "kv = (k, v)" by (cases kv)
  have ks: "k \<notin> fst ` set src" and ds: "distinct (map fst src)"
    using Cons.prems kv by auto
  have none: "map_of src k = None" using ks by (simp add: map_of_eq_None_iff)
  obtain dst' where step: "deepmerge dst ((k, v) # src) = deepmerge dst' src"
    and other: "\<And>key. key \<noteq> k \<Longrightarrow> map_of dst' key = map_of dst key"
    and same: "map_of dst' k =
       (case v of
          VDict s \<Rightarrow> (case map_of dst k of
                        Some (VDict d) \<Rightarrow> Some (VDict (deepmerge d s))
                      | _ \<Rightarrow> Some (VDict s))
        | _ \<Rightarrow> Some v)"
  proof (cases "\<exists>s. v = VDict s")
    case True
    then obtain s where v: "v = VDict s" by blast
    show ?thesis
    proof (rule that)
      show "deepmerge dst ((k, v) # src) =
              deepmerge (case map_of dst k of
                           Some (VDict d) \<Rightarrow> AList.update k (VDict (deepmerge d s)) dst
                         | _ \<Rightarrow> AList.update k (VDict s) dst) src"
        by (simp add: v)
    qed (simp_all add: v map_of_merged_head_other map_of_merged_head_same)
  next
    case False
    then have nd: "\<And>s. v \<noteq> VDict s" by blast
    show ?thesis
    proof (rule that)
      show "deepmerge dst ((k, v) # src) = deepmerge (AList.update k v dst) src"
        by (rule deepmerge_Cons_other [OF nd])
      show "map_of (AList.update k v dst) k =
         (case v of
            VDict s \<Rightarrow> (case map_of dst k of
                          Some (VDict d) \<Rightarrow> Some (VDict (deepmerge d s))
                        | _ \<Rightarrow> Some (VDict s))
          | _ \<Rightarrow> Some v)"
        using nd by (cases v) (auto simp: update_conv')
    qed (simp add: map_of_update_other)
  qed
  show ?case
  proof (cases "key = k")
    case True
    have "map_of (deepmerge dst' src) k = map_of dst' k"
      using Cons.IH [OF ds, of dst'] none True by simp
    with step same True kv show ?thesis
      by (cases v) simp_all
  next
    case False
    have "map_of (deepmerge dst' src) key =
     (case map_of src key of
        None \<Rightarrow> map_of dst key
      | Some (VDict s) \<Rightarrow>
          (case map_of dst key of
             Some (VDict d) \<Rightarrow> Some (VDict (deepmerge d s))
           | _ \<Rightarrow> Some (VDict s))
      | Some v \<Rightarrow> Some v)"
      using Cons.IH [OF ds, of dst'] other [OF False]
      by (simp cong: option.case_cong pyval.case_cong)
    with step False kv show ?thesis by simp
  qed
qed


lemma update_fresh_key: "k \<notin> fst ` set al \<Longrightarrow> AList.update k v al = al @ [(k, v)]"
  by (induction al) auto

lemma deepmerge_fresh_keys:
  "distinct (map fst src) \<Longrightarrow> fst ` set src \<inter> fst ` set dst = {} \<Longrightarrow>
   deepmerge dst src = dst @ src"
proof (induction src arbitrary: dst)
  case Nil
  then show ?case by simp
next
  case (Cons kv src)
  obtain k v where kv: "kv = (k, v)" by (cases kv)
  have k: "k \<notin> fst ` set dst" using Cons.prems(2) kv by auto
  then have none: "map_of dst k = None" by (simp add: map_of_eq_None_iff)
  have "deepmerge dst ((k, v) # src) = deepmerge (dst @ [(k, v)]) src"
    using none update_fresh_key [OF k] by (cases v) simp_all
  moreover have "deepmerge (dst @ [(k, v)]) src = (dst @ [(k, v)]) @ src"
    using Cons.prems kv by (intro Cons.IH) auto
  ultimately show ?case using kv by simp
qed

lemma merge_configs_specific_wins:
  assumes "distinct (map fst general)" and "distinct (map fst specific)"
  shows "\<exists>merged. merge_configs (VDict general) (VDict specific) = Inr (VDict merged)
     \<and> (\<forall>key. map_of merged key =
           (case map_of specific key of
              None \<Rightarrow> map_of general key
            | Some (VDict s) \<Rightarrow>
                (case map_of general key of
                   Some (VDict g) \<Rightarrow> Some (VDict (deepmerge g s))
                 | _ \<Rightarrow> Some (VDict s))
            | Some v \<Rightarrow> Some v))"
proof -
  have "deepmerge [] general = general"
    using deepmerge_fresh_keys [OF assms(1), of "[]"] by simp
  then show ?thesis
    using map_of_deepmerge [OF assms(2), of general]
    by (simp add: merge_configs_def)
qed

lemma merge_configs_identity:
  assumes "distinct (map fst kvs)"
  shows "merge_configs (VDict kvs) (VDict []) = Inr (VDict kvs)"
    and "merge_configs (VDict []) (VDict kvs) = Inr (VDict kvs)"
  using deepmerge_fresh_keys [OF assms, of "[]"] by (simp_all add: merge_configs_def)

subsection \<open>The effective configuration of a project\<close>

lemma str_rsplit1_append:
  assumes "d \<notin> set project"
  shows "str_rsplit1 d (grp @ d # project) = [grp, project]"
proof -
  have "\<And>x. x \<in> set (rev project) \<Longrightarrow> x \<noteq> d"
    using assms by auto
  from takeWhile_append2 [of "rev project" "\<lambda>c. c \<noteq> d" "d # rev grp", OF this]
  have "takeWhile (\<lambda>c. c \<noteq> d) (rev project @ d # rev grp) = rev project"
    by simp
  then show ?thesis by (simp add: str_rsplit1_def)
qed

lemma get_case_insensitively_loop_find:
  "get_case_insensitively_loop lower kvs a_key =
     (case find (\<lambda>kv. lower (fst kv) = lower a_key) kvs of
        None \<Rightarrow> Inl KeyNotFoundException
      | Some kv \<Rightarrow> Inr (snd kv))"
  by (induction kvs) auto

lemma get_section_descend:
  "get config ''projects_and_groups'' VNone = Inr v \<Longrightarrow>
   subscript config ''projects_and_groups'' = Some v"
  by (auto simp: get_def split: option.splits if_splits)

lemma get_section_absent:
  "get config ''projects_and_groups'' VNone = Inl e \<Longrightarrow>
   subscript config ''projects_and_groups'' = None"
  by (auto simp: get_def split: option.splits if_splits)

lemma get_group_config_dict:
  "get config ''projects_and_groups'' VNone = Inr (VDict pg) \<Longrightarrow>
   get_group_config lower config grp =
     Inr (case find (\<lambda>kv. lower (fst kv) = lower (grp @ ''/*'')) pg of
            None \<Rightarrow> VDict [] | Some kv \<Rightarrow> snd kv)"
  by (simp add: get_group_config_def get_case_insensitively_loop_find split: option.splits)

lemma get_project_config_dict:
  "get config ''projects_and_groups'' VNone = Inr (VDict pg) \<Longrightarrow>
   get_project_config lower config group_and_project =
     Inr (case find (\<lambda>kv. lower (fst kv) = lower group_and_project) pg of
            None \<Rightarrow> VDict [] | Some kv \<Rightarrow> snd kv)"
  by (simp add: get_project_config_def get_case_insensitively_loop_find split: option.splits)

lemma get_common_config_dict:
  "get config ''projects_and_groups'' VNone = Inr (VDict pg) \<Longrightarrow>
   get_common_config config = Inr (case map_of pg ''*'' of None \<Rightarrow> VDict [] | Some v \<Rightarrow> v)"
  by (drule get_section_descend) (simp add: get_common_config_def get_def split: option.splits)

lemma get_common_config_absent:
  "get config ''projects_and_groups'' VNone = Inl e \<Longrightarrow>
   get_common_config config = Inr (VDict [])"
  by (drule get_section_absent) (simp add: get_common_config_def get_def)

lemma get_group_config_absent:
  "get config ''projects_and_groups'' VNone = Inl e \<Longrightarrow>
   get_group_config lower config grp = Inr (VDict [])"
  by (frule get_Inl) (simp add: get_group_config_def)

lemma get_project_config_absent:
  "get config ''projects_and_groups'' VNone = Inl e \<Longrightarrow>
   get_project_config lower config gp = Inr (VDict [])"
  by (frule get_Inl) (simp add: get_project_config_def)

lemma effective_config_dict:
  assumes "CHR ''/'' \<notin> set project"
    and "get config ''projects_and_groups'' VNone = Inr (VDict pg)"
  shows "get_effective_config_for_project lower sub config (grp @ ''/'' @ project) =
     (case (if CHR ''/'' \<in> set grp then sub grp
            else Inr (case find (\<lambda>kv. lower (fst kv) = lower (grp @ ''/*'')) pg of
                        None \<Rightarrow> VDict [] | Some kv \<Rightarrow> snd kv)) of
        Inl e \<Rightarrow> Inl e
      | Inr group_layer \<Rightarrow>
          (case merge_configs (case map_of pg ''*'' of None \<Rightarrow> VDict [] | Some v \<Rightarrow> v)
                              group_layer of
             Inl e \<Rightarrow> Inl e
           | Inr common_and_group \<Rightarrow>
               merge_configs common_and_group
                 (case find (\<lambda>kv. lower (fst kv) = lower (grp @ ''/'' @ project)) pg of
                    None \<Rightarrow> VDict [] | Some kv \<Rightarrow> snd kv)))"
  using str_rsplit1_append [OF assms(1), of grp]
  by (simp add: get_effective_config_for_project_def get_common_config_dict [OF assms(2)]
                get_group_config_dict [OF assms(2)] get_project_config_dict [OF assms(2)]
           split: sum.splits)

lemma effective_config_absent:
  assumes "CHR ''/'' \<notin> set project"
    and "get config ''projects_and_groups'' VNone = Inl KeyNotFoundException"
  shows "get_effective_config_for_project lower sub config (grp @ ''/'' @ project) =
     (case (if CHR ''/'' \<in> set grp then sub grp else Inr (VDict [])) of
        Inl e \<Rightarrow> Inl e
      | Inr group_layer \<Rightarrow>
          (case merge_configs (VDict []) group_layer of
             Inl e \<Rightarrow> Inl e
           | Inr common_and_group \<Rightarrow> merge_configs common_and_group (VDict [])))"
  using str_rsplit1_append [OF assms(1), of grp]
  by (simp add: get_effective_config_for_project_def get_common_config_absent [OF assms(2)]
                get_group_config_absent [OF assms(2)] get_project_config_absent [OF assms(2)]
           split: sum.splits)

lemma effective_config_absent_top:
  assumes "CHR ''/'' \<notin> set project" and "CHR ''/'' \<notin> set grp"
    and "get config ''projects_and_groups'' VNone = Inl KeyNotFoundException"
  shows "get_effective_config_for_project lower sub config (grp @ ''/'' @ project) = Inr (VDict [])"
  using effective_config_absent [OF assms(1,3), of lower sub grp] assms(2)
  by (simp add: merge_configs_def)

lemma effective_config_example:
  assumes "agrees_on_ascii lower"
  shows "get_effective_config_for_project lower sub
     (VDict [(''projects_and_groups'',
        VDict [(''*'', VDict [(''a'', VInt 1)]),
               (''team/*'', VDict [(''a'', VInt 2), (''b'', VInt 1)]),
               (''team/proj'', VDict [(''a'', VInt 3)])])])
     ''team/proj''
   = Inr (VDict [(''a'', VInt 3), (''b'', VInt 1)])"
    and "get_effective_config_for_project lower sub
     (VDict [(''projects_and_groups'',
        VDict [(''*'', VDict [(''a'', VInt 1)]),
               (''team/*'', VDict [(''a'', VInt 2), (''b'', VInt 1)]),
               (''team/proj'', VDict [(''a'', VInt 3)])])])
     ''Team/Proj''
   = Inr (VDict [(''a'', VInt 3), (''b'', VInt 1)])"
proof -
  note l = lower_of_ascii [OF assms]
  have a: "lower ''*'' = ''*''" "lower ''team/*'' = ''team/*''" "lower ''team/proj'' = ''team/proj''"
    "lower ''Team/*'' = ''team/*''" "lower ''Team/Proj'' = ''team/proj''"
    by (simp_all add: l is_ascii_def ascii_lower_def ascii_lower_chr_def)
  show "get_effective_config_for_project lower sub
     (VDict [(''projects_and_groups'',
        VDict [(''*'', VDict [(''a'', VInt 1)]),
               (''team/*'', VDict [(''a'', VInt 2), (''b'', VInt 1)]),
               (''team/proj'', VDict [(''a'', VInt 3)])])])
     ''team/proj''
   = Inr (VDict [(''a'', VInt 3), (''b'', VInt 1)])"
    by (simp add: get_effective_config_for_project_def get_common_config_def
         get_group_config_def get_project_config_def get_def str_rsplit1_def merge_configs_def a)
  show "get_effective_config_for_project lower sub
     (VDict [(''projects_and_groups'',
        VDict [(''*'', VDict [(''a'', VInt 1)]),
               (''team/*'', VDict [(''a'', VInt 2), (''b'', VInt 1)]),
               (''team/proj'', VDict [(''a'', VInt 3)])])])
     ''Team/Proj''
   = Inr (VDict [(''a'', VInt 3), (''b'', VInt 1)])"
    by (simp add: get_effective_config_for_project_def get_common_config_def
         get_group_config_def get_project_config_def get_def str_rsplit1_def merge_configs_def a)
qed

text \<open>
  Claim C1. Whatever \<^verbatim>\<open>str.lower\<close> does, for a project \<^verbatim>\<open>group/.../project\<close> and a
  tree whose \<^verbatim>\<open>projects_and_groups\<close> is a dict, the effective configuration is the
  common layer (the value at \<^verbatim>\<open>*\<close>), merged with the group layer as the more
  specific one, merged with the project's own layer as the more specific one.
  The group layer is the subgroup resolver's answer when the group part holds a
  slash, else the value of the first key equal to \<^verbatim>\<open>group/*\<close> once both are
  lower-cased; the project layer is the value of the first key equal to the
  whole name once both are lower-cased; a layer that is absent is the empty
  dict. With no \<^verbatim>\<open>projects_and_groups\<close> at all, the common and the project layer
  are empty, and the group layer is the subgroup resolver's answer when the group
  part holds a slash and empty for a top-level group, whose projects then get
  the empty dict. When lower-casing does to ASCII strings what \<^verbatim>\<open>str.lower\<close> does:
  with common \<^verbatim>\<open>{a: 1}\<close>, \<^verbatim>\<open>team/*\<close> \<^verbatim>\<open>{a: 2, b: 1}\<close> and \<^verbatim>\<open>team/proj\<close> \<^verbatim>\<open>{a: 3}\<close>, the
  project \<^verbatim>\<open>team/proj\<close>, also written \<^verbatim>\<open>Team/Proj\<close>, gets \<^verbatim>\<open>{a: 3, b: 1}\<close>.
\<close>

theorem effective_config_for_project_spec:
  "(CHR ''/'' \<notin> set project \<and> get config ''projects_and_groups'' VNone = Inr (VDict pg) \<longrightarrow>
      get_effective_config_for_project lower sub config (grp @ ''/'' @ project) =
        (case (if CHR ''/'' \<in> set grp then sub grp
               else Inr (case find (\<lambda>kv. lower (fst kv) = lower (grp @ ''/*'')) pg of
                           None \<Rightarrow> VDict [] | Some kv \<Rightarrow> snd kv)) of
           Inl e \<Rightarrow> Inl e
         | Inr group_layer \<Rightarrow>
             (case merge_configs (case map_of pg ''*'' of None \<Rightarrow> VDict [] | Some v \<Rightarrow> v)
                                 group_layer of
                Inl e \<Rightarrow> Inl e
              | Inr common_and_group \<Rightarrow>
                  merge_configs common_and_group
                    (case find (\<lambda>kv. lower (fst kv) = lower (grp @ ''/'' @ project)) pg of
                       None \<Rightarrow> VDict [] | Some kv \<Rightarrow> snd kv))))
   \<and> (CHR ''/'' \<notin> set project
        \<and> get config ''projects_and_groups'' VNone = Inl KeyNotFoundException \<longrightarrow>
      get_effective_config_for_project lower sub config (grp @ ''/'' @ project) =
        (case (if CHR ''/'' \<in> set grp then sub grp else Inr (VDict [])) of
           Inl e \<Rightarrow> Inl e
         | Inr group_layer \<Rightarrow>
             (case merge_configs (VDict []) group_layer of
                Inl e \<Rightarrow> Inl e
              | Inr common_and_group \<Rightarrow> merge_configs common_and_group (VDict []))))
   \<and> (CHR ''/'' \<notin> set project \<and> CHR ''/'' \<notin> set grp
        \<and> get config ''projects_and_groups'' VNone = Inl KeyNotFoundException \<longrightarrow>
      get_effective_config_for_project lower sub config (grp @ ''/'' @ project) = Inr (VDict []))
   \<and> (agrees_on_ascii lower \<longrightarrow>
        get_effective_config_for_project lower sub
          (VDict [(''projects_and_groups'',
             VDict [(''*'', VDict [(''a'', VInt 1)]),
                    (''team/*'', VDict [(''a'', VInt 2), (''b'', VInt 1)]),
                    (''team/proj'', VDict [(''a'', VInt 3)])])])
          ''team/proj''
        = Inr (VDict [(''a'', VInt 3), (''b'', VInt 1)])
        \<and> get_effective_config_for_project lower sub
          (VDict [(''projects_and_groups'',
             VDict [(''*'', VDict [(''a'', VInt 1)]),
                    (''team/*'', VDict [(''a'', VInt 2), (''b'', VInt 1)]),
                    (''team/proj'', VDict [(''a'', VInt 3)])])])
          ''Team/Proj''
        = Inr (VDict [(''a'', VInt 3), (''b'', VInt 1)]))"
  using effective_config_dict [of project config pg lower sub grp]
        effective_config_absent [of project config lower sub grp]
        effective_config_absent_top [of project grp config lower sub]
        effective_config_example [of lower sub]
  by blast

theorem effective_config_for_project_spec_witness:
  "get_effective_config_for_project ascii_lower (\<lambda>g. Inr (VDict [(''s'', VInt 9)]))
     (VDict [(''projects_and_groups'',
        VDict [(''*'', VDict [(''a'', VInt 1), (''c'', VDict [(''x'', VInt 0)])]),
               (''G/Sub/p'', VDict [(''c'', VDict [(''y'', VInt 1)])])])])
     ''g/sub/P''
   = Inr (VDict [(''a'', VInt 1), (''c'', VDict [(''x'', VInt 0), (''y'', VInt 1)]), (''s'', VInt 9)])
   \<and> get_effective_config_for_project ascii_lower (\<lambda>g. Inr (VDict [(''s'', VInt 9)]))
        (VDict [(''skip_groups'', VList [])]) ''g/p'' = Inr (VDict [])
   \<and> get_effective_config_for_project ascii_lower (\<lambda>g. Inr (VDict [(''s'', VInt 9)]))
        (VDict [(''skip_groups'', VList [])]) ''g/sub/p'' = Inr (VDict [(''s'', VInt 9)])
   \<and> get_effective_config_for_project ascii_lower (\<lambda>g. Inr (VDict [(''s'', VInt 9)]))
        (VDict [(''projects_and_groups'',
           VDict [(''*'', VDict [(''a'', VInt 1)]),
                  (''team/*'', VDict [(''a'', VInt 2), (''b'', VInt 1)]),
                  (''team/proj'', VDict [(''a'', VInt 3)])])])
        ''Team/Proj''
      = Inr (VDict [(''a'', VInt 3), (''b'', VInt 1)])"
proof -
  define sub where "sub = (\<lambda>g :: string. (Inr (VDict [(''s'', VInt 9)]) :: failure + pyval))"
  define pg where "pg = [(''*'', VDict [(''a'', VInt 1), (''c'', VDict [(''x'', VInt 0)])]),
               (''G/Sub/p'', VDict [(''c'', VDict [(''y'', VInt 1)])])]"
  have g: "get (VDict [(''projects_and_groups'', VDict pg)]) ''projects_and_groups'' VNone
             = Inr (VDict pg)"
    by (simp add: get_def)
  have a: "get (VDict [(''skip_groups'', VList [])]) ''projects_and_groups'' VNone
             = Inl KeyNotFoundException"
    by (simp add: get_def)
  note s1 = effective_config_for_project_spec
              [of "''P''" "VDict [(''projects_and_groups'', VDict pg)]" pg ascii_lower sub "''g/sub''"]
  note s2 = effective_config_for_project_spec
              [of "''p''" "VDict [(''skip_groups'', VList [])]" "[]" ascii_lower sub "''g''"]
  note s3 = effective_config_for_project_spec
              [of "''p''" "VDict [(''skip_groups'', VList [])]" "[]" ascii_lower sub "''g/sub''"]
  have "get_effective_config_for_project ascii_lower sub
          (VDict [(''projects_and_groups'', VDict pg)]) ''g/sub/P''
        = Inr (VDict [(''a'', VInt 1), (''c'', VDict [(''x'', VInt 0), (''y'', VInt 1)]),
                      (''s'', VInt 9)])"
    using s1 [THEN conjunct1] g
    by (simp add: merge_configs_def ascii_lower_def ascii_lower_chr_def pg_def sub_def)
  moreover have "get_effective_config_for_project ascii_lower sub
          (VDict [(''skip_groups'', VList [])]) ''g/p'' = Inr (VDict [])"
    using s2 [THEN conjunct2, THEN conjunct2, THEN conjunct1] a by simp
  moreover have "get_effective_config_for_project ascii_lower sub
          (VDict [(''skip_groups'', VList [])]) ''g/sub/p'' = Inr (VDict [(''s'', VInt 9)])"
    using s3 [THEN conjunct2, THEN conjunct1] a
    by (simp add: merge_configs_def sub_def)
  moreover have "get_effective_config_for_project ascii_lower sub
        (VDict [(''projects_and_groups'',
           VDict [(''*'', VDict [(''a'', VInt 1)]),
                  (''team/*'', VDict [(''a'', VInt 2), (''b'', VInt 1)]),
                  (''team/proj'', VDict [(''a'', VInt 3)])])])
        ''Team/Proj''
      = Inr (VDict [(''a'', VInt 3), (''b'', VInt 1)])"
    using s1 [THEN conjunct2, THEN conjunct2, THEN conjunct2] ascii_lower_agrees by simp
  ultimately show ?thesis by (simp add: pg_def sub_def)
qed

subsection \<open>Where \<^verbatim>\<open>KeyNotFoundException\<close> can come out\<close>

lemma is_skipped_loop_Inl: "is_skipped_loop lower xs item = Inl e \<Longrightarrow> e = AttributeError"
  by (induction lower xs item rule: is_skipped_loop.induct) (auto simp: Let_def split: if_splits)

lemma is_skipped_Inl:
  "is_skipped_case_insensitively lower an_array item = Inl e \<Longrightarrow> e = TypeError \<or> e = AttributeError"
  by (auto simp: is_skipped_case_insensitively_def split: sum.splits
           dest: py_iter_Inl is_skipped_loop_Inl)

lemma deepmerge_any_Inl: "deepmerge_any dst v = Inl e \<Longrightarrow> e = TypeError \<or> e = NotModelled"
  by (induction dst v rule: deepmerge_any.induct) auto

lemma merge_configs_Inl: "merge_configs g s = Inl e \<Longrightarrow> e = TypeError \<or> e = NotModelled"
  by (auto simp: merge_configs_def split: sum.splits dest: deepmerge_any_Inl)

lemma get_case_insensitively_no_KeyNotFound:
  "except_KeyNotFound_empty r \<noteq> Inl KeyNotFoundException"
  by (cases r rule: except_KeyNotFound_empty.cases) auto

lemma get_with_default: "dflt \<noteq> VNone \<Longrightarrow> \<exists>v. get config path dflt = Inr v"
  by (simp add: get_def split: option.splits)

lemma is_project_skipped_no_KeyNotFound:
  "is_project_skipped lower config p \<noteq> Inl KeyNotFoundException"
  using get_with_default [of "VList []" config "''skip_projects''"]
  by (auto simp: is_project_skipped_def dest: is_skipped_Inl)

lemma is_group_skipped_no_KeyNotFound:
  "is_group_skipped lower config g \<noteq> Inl KeyNotFoundException"
  using get_with_default [of "VList []" config "''skip_groups''"]
  by (auto simp: is_group_skipped_def dest: is_skipped_Inl)

lemma get_common_config_no_KeyNotFound:
  "get_common_config config \<noteq> Inl KeyNotFoundException"
  using get_with_default [of "VDict []" config "''projects_and_groups|*''"]
  by (auto simp: get_common_config_def)

lemma skipped_absent:
  "get config path VNone = Inl e \<Longrightarrow> get config path (VList []) = Inr (VList [])"
  by (auto simp: get_def split: option.splits if_splits)

lemma get_projects_KeyNotFound:
  "get_projects config = Inl KeyNotFoundException \<longleftrightarrow>
   get config ''projects_and_groups'' VNone = Inl KeyNotFoundException"
  by (auto simp: get_projects_def split: sum.splits pyval.splits dest: get_Inl)

lemma effective_config_no_KeyNotFound:
  assumes "\<forall>g. sub g \<noteq> Inl KeyNotFoundException"
  shows "get_effective_config_for_project lower sub config gp \<noteq> Inl KeyNotFoundException"
proof
  assume k: "get_effective_config_for_project lower sub config gp = Inl KeyNotFoundException"
  have gg: "get_group_config lower config g \<noteq> Inl KeyNotFoundException" for g
    by (simp add: get_group_config_def get_case_insensitively_no_KeyNotFound)
  have gp: "get_project_config lower config gp \<noteq> Inl KeyNotFoundException"
    by (simp add: get_project_config_def get_case_insensitively_no_KeyNotFound)
  from k assms gg gp get_common_config_no_KeyNotFound [of config] show False
    by (auto simp: get_effective_config_for_project_def
             split: sum.splits list.splits if_splits dest: merge_configs_Inl)
qed


text \<open>
  Claim C5, at a concrete input: on a tree with no \<^verbatim>\<open>projects_and_groups\<close>,
  \<^verbatim>\<open>get_projects\<close> raises \<^verbatim>\<open>KeyNotFoundException\<close>.
\<close>

theorem key_not_found_counterexample:
  "get (VDict [(''config_version'', VInt 2)]) ''projects_and_groups'' VNone
     = Inl KeyNotFoundException
   \<and> get_projects (VDict [(''config_version'', VInt 2)]) = Inl KeyNotFoundException"
  by (simp add: get_projects_def get_def)

text \<open>
  Claim C5, amended. When the section they read is absent, \<^verbatim>\<open>get_group_config\<close>,
  \<^verbatim>\<open>get_project_config\<close> and \<^verbatim>\<open>get_common_config\<close> return the empty dict and
  \<^verbatim>\<open>is_project_skipped\<close> and \<^verbatim>\<open>is_group_skipped\<close> return false. On no tree do
  these five raise \<^verbatim>\<open>KeyNotFoundException\<close>, and neither does
  \<^verbatim>\<open>get_effective_config_for_project\<close> unless the subgroup resolver does.
  \<^verbatim>\<open>get_projects\<close> calls \<^verbatim>\<open>get\<close> with no default: it raises
  \<^verbatim>\<open>KeyNotFoundException\<close> exactly when \<^verbatim>\<open>projects_and_groups\<close> is absent.
\<close>

theorem key_not_found_spec:
  "(get config ''projects_and_groups'' VNone = Inl KeyNotFoundException \<longrightarrow>
      get_group_config lower config grp = Inr (VDict [])
      \<and> get_project_config lower config group_and_project = Inr (VDict [])
      \<and> get_common_config config = Inr (VDict []))
   \<and> (get config ''skip_projects'' VNone = Inl KeyNotFoundException \<longrightarrow>
        is_project_skipped lower config project = Inr False)
   \<and> (get config ''skip_groups'' VNone = Inl KeyNotFoundException \<longrightarrow>
        is_group_skipped lower config grp = Inr False)
   \<and> get_group_config lower config grp \<noteq> Inl KeyNotFoundException
   \<and> get_project_config lower config group_and_project \<noteq> Inl KeyNotFoundException
   \<and> get_common_config config \<noteq> Inl KeyNotFoundException
   \<and> is_project_skipped lower config project \<noteq> Inl KeyNotFoundException
   \<and> is_group_skipped lower config grp \<noteq> Inl KeyNotFoundException
   \<and> ((\<forall>g. sub g \<noteq> Inl KeyNotFoundException) \<longrightarrow>
        get_effective_config_for_project lower sub config group_and_project \<noteq> Inl KeyNotFoundException)
   \<and> (get_projects config = Inl KeyNotFoundException \<longleftrightarrow>
        get config ''projects_and_groups'' VNone = Inl KeyNotFoundException)"
proof -
  have "get config ''skip_projects'' VNone = Inl KeyNotFoundException \<Longrightarrow>
        is_project_skipped lower config project = Inr False"
    by (simp add: is_project_skipped_def skipped_absent is_skipped_case_insensitively_def)
  moreover have "get config ''skip_groups'' VNone = Inl KeyNotFoundException \<Longrightarrow>
        is_group_skipped lower config grp = Inr False"
    by (simp add: is_group_skipped_def skipped_absent is_skipped_case_insensitively_def)
  moreover have "get_group_config lower config grp \<noteq> Inl KeyNotFoundException"
    by (simp add: get_group_config_def get_case_insensitively_no_KeyNotFound)
  moreover have "get_project_config lower config group_and_project \<noteq> Inl KeyNotFoundException"
    by (simp add: get_project_config_def get_case_insensitively_no_KeyNotFound)
  ultimately show ?thesis
    using get_group_config_absent [of config KeyNotFoundException lower grp]
          get_project_config_absent [of config KeyNotFoundException lower group_and_project]
          get_common_config_absent [of config KeyNotFoundException]
          get_common_config_no_KeyNotFound [of config]
          is_project_skipped_no_KeyNotFound [of lower config project]
          is_group_skipped_no_KeyNotFound [of lower config grp]
          effective_config_no_KeyNotFound [of sub lower config group_and_project]
          get_projects_KeyNotFound [of config]
    by blast
qed

theorem key_not_found_spec_witness:
  "get_group_config ascii_lower (VDict [(''config_version'', VInt 2)]) ''team'' = Inr (VDict [])
   \<and> get_project_config ascii_lower (VDict [(''config_version'', VInt 2)]) ''team/proj'' = Inr (VDict [])
   \<and> get_common_config (VDict [(''config_version'', VInt 2)]) = Inr (VDict [])
   \<and> is_project_skipped ascii_lower (VDict [(''config_version'', VInt 2)]) ''team/proj'' = Inr False
   \<and> is_group_skipped ascii_lower (VDict [(''config_version'', VInt 2)]) ''team'' = Inr False
   \<and> get_effective_config_for_project ascii_lower (\<lambda>g. Inr (VDict []))
        (VDict [(''config_version'', VInt 2)]) ''team/proj'' \<noteq> Inl KeyNotFoundException
   \<and> get_projects (VDict [(''config_version'', VInt 2)]) = Inl KeyNotFoundException"
proof -
  have a: "get (VDict [(''config_version'', VInt 2)]) ''projects_and_groups'' VNone
             = Inl KeyNotFoundException"
          "get (VDict [(''config_version'', VInt 2)]) ''skip_projects'' VNone
             = Inl KeyNotFoundException"
          "get (VDict [(''config_version'', VInt 2)]) ''skip_groups'' VNone
             = Inl KeyNotFoundException"
    by (simp_all add: get_def)
  have s: "\<forall>g. (\<lambda>g. Inr (VDict [])) g \<noteq> (Inl KeyNotFoundException :: failure + pyval)"
    by simp
  show ?thesis
    using key_not_found_spec
            [of "VDict [(''config_version'', VInt 2)]" ascii_lower "''team''" "''team/proj''"
                "''team/proj''"
                "\<lambda>g. Inr (VDict [])"] a s
    by blast
qed

subsection \<open>The merge leaves its inputs alone\<close>

lemma fresh_closed_append:
  assumes "fresh_closed n0 h" and "\<forall>v \<in> set (vals_of obj). fresh_val n0 v"
  shows "fresh_closed n0 (h @ [obj])"
  unfolding fresh_closed_def
proof (intro allI impI)
  fix a
  assume a: "n0 \<le> a \<and> a < length (h @ [obj])"
  show "\<forall>v \<in> set (vals_of ((h @ [obj]) ! a)). fresh_val n0 v"
  proof (cases "a < length h")
    case True
    with a assms(1) show ?thesis by (simp add: fresh_closed_def nth_append)
  next
    case False
    with a have "a = length h" by simp
    with assms(2) show ?thesis by simp
  qed
qed

lemma fresh_closed_update:
  assumes "fresh_closed n0 h" and "\<forall>v \<in> set (vals_of obj). fresh_val n0 v"
  shows "fresh_closed n0 (h[a := obj])"
  unfolding fresh_closed_def
proof (intro allI impI)
  fix b
  assume b: "n0 \<le> b \<and> b < length (h[a := obj])"
  show "\<forall>v \<in> set (vals_of (h[a := obj] ! b)). fresh_val n0 v"
  proof (cases "b = a")
    case True
    with b assms(2) show ?thesis by simp
  next
    case False
    with b assms(1) show ?thesis by (simp add: fresh_closed_def)
  qed
qed

lemma set_snd_zip: "set (map snd (zip ks vs)) \<subseteq> set vs"
  by (auto dest: set_zip_rightD)

lemma deepcopy_frame:
  "n0 \<le> length h \<Longrightarrow> fresh_closed n0 h \<Longrightarrow> deepcopy n h v = (h', r) \<Longrightarrow>
     prefix h h' \<and> fresh_closed n0 h' \<and> (\<forall>c. r = Some c \<longrightarrow> fresh_val n0 c)"
  "n0 \<le> length h \<Longrightarrow> fresh_closed n0 h \<Longrightarrow> deepcopy_all n h vs = (h'', rs) \<Longrightarrow>
     prefix h h'' \<and> fresh_closed n0 h'' \<and> (\<forall>cs. rs = Some cs \<longrightarrow> (\<forall>c \<in> set cs. fresh_val n0 c))"
proof (induction n h v and n h vs arbitrary: h' r and h'' rs rule: deepcopy_deepcopy_all.induct)
  case (2 n h a)
  show ?case
  proof (cases "lookup h a")
    case None
    with 2 show ?thesis by simp
  next
    case (Some obj)
    obtain hm rm where d: "deepcopy_all n h (vals_of obj) = (hm, rm)"
      by (cases "deepcopy_all n h (vals_of obj)")
    have ih: "prefix h hm \<and> fresh_closed n0 hm
               \<and> (\<forall>cs. rm = Some cs \<longrightarrow> (\<forall>c \<in> set cs. fresh_val n0 c))"
    proof (cases obj)
      case (ODict kvs)
      with "2.IH"(1) [OF Some ODict "2.prems"(1,2)] d show ?thesis by simp
    next
      case (OList xs)
      with "2.IH"(2) [OF Some OList "2.prems"(1,2)] d show ?thesis by simp
    qed
    show ?thesis
    proof (cases rm)
      case None
      with "2.prems"(3) Some d ih show ?thesis
        by (cases obj) auto
    next
      case (Some cs)
      have len: "n0 \<le> length hm"
        using ih "2.prems"(1) prefix_length_le by fastforce
      have fr: "\<forall>c \<in> set cs. fresh_val n0 c" using ih Some by simp
      show ?thesis
      proof (cases obj)
        case (ODict kvs)
        have "\<forall>v \<in> set (vals_of (ODict (zip (map fst kvs) cs))). fresh_val n0 v"
          using fr set_snd_zip [of "map fst kvs" cs] by auto
        from fresh_closed_append [OF _ this, of hm] ih
        have "fresh_closed n0 (hm @ [ODict (zip (map fst kvs) cs)])" by simp
        with "2.prems"(3) \<open>lookup h a = Some obj\<close> ODict d Some ih len show ?thesis
          by (auto intro: prefix_order.trans)
      next
        case (OList xs)
        have "\<forall>v \<in> set (vals_of (OList cs)). fresh_val n0 v"
          using fr by simp
        from fresh_closed_append [OF _ this, of hm] ih
        have "fresh_closed n0 (hm @ [OList cs])" by simp
        with "2.prems"(3) \<open>lookup h a = Some obj\<close> OList d Some ih len show ?thesis
          by (auto intro: prefix_order.trans)
      qed
    qed
  qed
next
  case (5 n h v vs)
  obtain h1 r1 where d1: "deepcopy n h v = (h1, r1)"
    by (cases "deepcopy n h v")
  from "5.IH"(1) [OF "5.prems"(1,2) d1]
  have p1: "prefix h h1" and fc1: "fresh_closed n0 h1"
    and f1: "\<forall>c. r1 = Some c \<longrightarrow> fresh_val n0 c" by simp_all
  show ?case
  proof (cases r1)
    case None
    with "5.prems"(3) d1 p1 fc1 show ?thesis by simp
  next
    case (Some c)
    obtain h2 r2 where d2: "deepcopy_all n h1 vs = (h2, r2)"
      by (cases "deepcopy_all n h1 vs")
    have len: "n0 \<le> length h1"
      using p1 "5.prems"(1) prefix_length_le by fastforce
    from "5.IH"(2) [OF d1 [symmetric] Some len fc1 d2]
    have p2: "prefix h1 h2" and fc2: "fresh_closed n0 h2"
      and f2: "\<forall>cs. r2 = Some cs \<longrightarrow> (\<forall>c \<in> set cs. fresh_val n0 c)" by simp_all
    from "5.prems"(3) d1 Some d2 p1 p2 fc2 f1 f2 show ?thesis
      by (cases r2) (auto intro: prefix_order.trans)
  qed
qed auto




lemma set_snd_update: "set (map snd (AList.update k v al)) \<subseteq> insert v (set (map snd al))"
  by (induction al) auto

lemma prefix_take:
  assumes "prefix h h1" and "n0 \<le> length h"
  shows "take n0 h1 = take n0 h"
  using assms by (auto simp: prefix_def)

lemma fresh_closed_vals:
  assumes "fresh_closed n0 h" and "n0 \<le> a" and "lookup h a = Some obj"
  shows "\<forall>v \<in> set (vals_of obj). fresh_val n0 v"
  using assms by (auto simp: fresh_closed_def lookup_def split: if_splits)

lemma setitem_frame:
  assumes "n0 \<le> dst" and "fresh_closed n0 h" and "fresh_val n0 c"
  shows "take n0 (setitem h dst key c) = take n0 h
       \<and> length (setitem h dst key c) = length h
       \<and> fresh_closed n0 (setitem h dst key c)"
proof (cases "lookup h dst")
  case None
  with assms show ?thesis by (simp add: setitem_def)
next
  case (Some obj)
  show ?thesis
  proof (cases obj)
    case (OList xs)
    with Some assms show ?thesis by (simp add: setitem_def)
  next
    case (ODict d)
    have "\<forall>v \<in> set (vals_of (ODict d)). fresh_val n0 v"
      using fresh_closed_vals [OF assms(2,1) Some] ODict by simp
    then have "\<forall>v \<in> insert c (set (map snd d)). fresh_val n0 v"
      using assms(3) by simp
    with set_snd_update [of key c d]
    have "\<forall>v \<in> set (vals_of (ODict (AList.update key c d))). fresh_val n0 v"
      unfolding vals_of.simps by blast
    from fresh_closed_update [OF assms(2) this]
    show ?thesis using Some ODict assms(1) by (simp add: setitem_def)
  qed
qed

lemma setitem_copy_frame:
  assumes "n0 \<le> dst" and "n0 \<le> length h" and "fresh_closed n0 h"
    and "setitem_copy n h dst key v = (h', ok)"
  shows "take n0 h' = take n0 h \<and> length h \<le> length h' \<and> fresh_closed n0 h'"
proof -
  obtain h1 r where d: "deepcopy n h v = (h1, r)"
    by (cases "deepcopy n h v")
  from deepcopy_frame(1) [OF assms(2,3) d]
  have p: "prefix h h1" and fc: "fresh_closed n0 h1"
    and fr: "\<forall>c. r = Some c \<longrightarrow> fresh_val n0 c" by simp_all
  have t: "take n0 h1 = take n0 h" using prefix_take [OF p assms(2)] .
  have l: "length h \<le> length h1" using p by (rule prefix_length_le)
  show ?thesis
  proof (cases r)
    case None
    with assms(4) d t l fc show ?thesis by (simp add: setitem_copy_def)
  next
    case (Some c)
    with fr have "fresh_val n0 c" by simp
    from setitem_frame [OF assms(1) fc this, of key] assms(4) d Some t l
    show ?thesis by (auto simp: setitem_copy_def)
  qed
qed

lemma deepmerge_frame:
  "n0 \<le> dst \<Longrightarrow> n0 \<le> length h \<Longrightarrow> fresh_closed n0 h \<Longrightarrow>
   deepmerge_heap n h dst src = (h', ok) \<Longrightarrow>
     take n0 h' = take n0 h \<and> length h \<le> length h' \<and> fresh_closed n0 h'"
  "n0 \<le> dst \<Longrightarrow> n0 \<le> length h \<Longrightarrow> fresh_closed n0 h \<Longrightarrow>
   deepmerge_keys n h dst items = (h'', ok') \<Longrightarrow>
     take n0 h'' = take n0 h \<and> length h \<le> length h'' \<and> fresh_closed n0 h''"
proof (induction n h dst src and n h dst items arbitrary: h' ok and h'' ok'
       rule: deepmerge_heap_deepmerge_keys.induct)
  case (1 h dst src)
  then show ?case by simp
next
  case (2 n h dst src)
  show ?case
  proof (cases "lookup h src")
    case None
    with "2.prems" show ?thesis by simp
  next
    case (Some obj)
    show ?thesis
    proof (cases obj)
      case (OList xs)
      with Some "2.prems" show ?thesis by simp
    next
      case (ODict kvs)
      with Some "2.prems"(4) have "deepmerge_keys n h dst kvs = (h', ok)" by simp
      from "2.IH" [OF Some ODict "2.prems"(1,2,3) this] show ?thesis .
    qed
  qed
next
  case (3 n h dst)
  then show ?case by simp
next
  case (4 n h dst key v rest)
  show ?case
  proof (cases "lookup h dst")
    case None
    with "4.prems" show ?thesis by simp
  next
    case (Some obj)
    show ?thesis
    proof (cases obj)
      case (OList xs)
      with Some "4.prems" show ?thesis by simp
    next
      case (ODict d)
      define step where "step =
        (case (map_of d key, v) of
           (Some (HRef a), HRef b) \<Rightarrow>
             if is_dict h a \<and> is_dict h b then deepmerge_heap n h a b
             else if a = b then (h, True)
             else setitem_copy n h dst key v
         | _ \<Rightarrow> setitem_copy n h dst key v)"
      obtain h1 ok1 where st: "step = (h1, ok1)" by (cases step)
      have res: "(h'', ok') = (if ok1 then deepmerge_keys n h1 dst rest else (h1, False))"
        using "4.prems"(4) Some ODict st by (cases ok1) (simp_all add: step_def)
      have fr1: "take n0 h1 = take n0 h \<and> length h \<le> length h1 \<and> fresh_closed n0 h1"
      proof (cases "\<exists>a b. map_of d key = Some (HRef a) \<and> v = HRef b")
        case True
        then obtain a b where ab: "map_of d key = Some (HRef a)" "v = HRef b" by blast
        show ?thesis
        proof (cases "is_dict h a \<and> is_dict h b")
          case dicts: True
          then have dm: "deepmerge_heap n h a b = (h1, ok1)"
            using st ab by (simp add: step_def)
          have "HRef a \<in> set (vals_of obj)"
            using ab(1) ODict by (auto dest: map_of_SomeD intro: rev_image_eqI)
          with fresh_closed_vals [OF "4.prems"(3,1) Some] have na: "n0 \<le> a" by auto
          from "4.IH"(1) [OF Some ODict refl ab(1) refl ab(2) dicts na "4.prems"(2,3) dm]
          show ?thesis .
        next
          case False
          then have "step = (if a = b then (h, True) else setitem_copy n h dst key v)"
            using ab by (auto simp: step_def)
          with st setitem_copy_frame [OF "4.prems"(1,2,3), of n key v h1 ok1] "4.prems"(3)
          show ?thesis by (auto split: if_splits)
        qed
      next
        case False
        then have "step = setitem_copy n h dst key v"
          by (auto simp: step_def split: option.splits hval.splits)
        with st setitem_copy_frame [OF "4.prems"(1,2,3), of n key v h1 ok1]
        show ?thesis by simp
      qed
      show ?thesis
      proof (cases ok1)
        case False
        with res fr1 show ?thesis by simp
      next
        case True
        with res have dk: "deepmerge_keys n h1 dst rest = (h'', ok')" by simp
        have n1: "n0 \<le> length h1" using fr1 "4.prems"(2) by simp
        have "(h1, ok1) = (case map_of d key of None \<Rightarrow> setitem_copy n h dst key v
            | Some (HRef a) \<Rightarrow>
                (case v of
                HRef b \<Rightarrow>
                  if is_dict h a \<and> is_dict h b then deepmerge_heap n h a b
                  else if a = b then (h, True)
                       else setitem_copy n h dst key v
                | _ \<Rightarrow> setitem_copy n h dst key v)
            | Some _ \<Rightarrow> setitem_copy n h dst key v)"
          using st by (simp add: step_def)
        moreover have "ok1 = True" using True by simp
        ultimately have "take n0 h'' = take n0 h1 \<and> length h1 \<le> length h'' \<and> fresh_closed n0 h''"
          using "4.IH"(2) [OF Some ODict _ _ "4.prems"(1) n1 _ dk] fr1 by blast
        with fr1 show ?thesis by simp
      qed
    qed
  qed
qed


lemma deepmerge_source_frame:
  assumes "n0 \<le> dst" and "n0 \<le> length h" and "fresh_closed n0 h"
    and "deepmerge_source n h dst v = (h', ok)"
  shows "take n0 h' = take n0 h \<and> length h \<le> length h' \<and> fresh_closed n0 h'"
proof (cases "\<exists>src items. v = HRef src \<and> lookup h src = Some (ODict items)")
  case True
  then obtain src items where "v = HRef src" "lookup h src = Some (ODict items)" by blast
  with assms(4) have "deepmerge_heap n h dst src = (h', ok)" by simp
  from deepmerge_frame(1) [OF assms(1,2,3) this] show ?thesis .
next
  case False
  then have "h' = h"
    using assms(4)
    by (cases "(n, h, dst, v)" rule: deepmerge_source.cases)
       (auto split: option.splits hobj.splits list.splits)
  with assms(3) show ?thesis by simp
qed

lemma merge_configs_heap_prefix:
  "prefix h (fst (merge_configs_heap n h g s))"
proof -
  define n0 where "n0 = length h"
  define h0 where "h0 = h @ [ODict []]"
  have fc0: "fresh_closed n0 h0"
    unfolding h0_def n0_def fresh_closed_def by (auto simp: nth_append)
  have l0: "n0 \<le> length h0" by (simp add: h0_def n0_def)
  have t0: "take n0 h0 = h" by (simp add: h0_def n0_def)
  obtain h1 ok1 where d1: "deepmerge_source n h0 n0 g = (h1, ok1)"
    by (cases "deepmerge_source n h0 n0 g")
  from deepmerge_source_frame [OF order_refl l0 fc0 d1]
  have f1: "take n0 h1 = h" "length h0 \<le> length h1" "fresh_closed n0 h1"
    using t0 by simp_all
  have l1: "n0 \<le> length h1" using f1(2) l0 by simp
  obtain h2 ok2 where d2: "deepmerge_source n h1 n0 s = (h2, ok2)"
    by (cases "deepmerge_source n h1 n0 s")
  from deepmerge_source_frame [OF order_refl l1 f1(3) d2]
  have f2: "take n0 h2 = h" "length h1 \<le> length h2"
    using f1(1) by simp_all
  have l2: "n0 \<le> length h2" using f2(2) l1 by simp
  have p1: "prefix h h1" using f1(1) by (metis take_is_prefix)
  have p2: "prefix h h2" using f2(1) by (metis take_is_prefix)
  have p3: "prefix h (h2 @ [x])" for x using p2 by (simp add: prefix_def) (metis append.assoc)
  have "fst (merge_configs_heap n h g s) = h1 \<or> fst (merge_configs_heap n h g s) = h2
        \<or> (\<exists>x. fst (merge_configs_heap n h g s) = h2 @ [x])"
    using d1 d2
    by (auto simp: merge_configs_heap_def Let_def h0_def n0_def
             split: prod.splits bool.splits option.splits hobj.splits)
  with p1 p2 p3 show ?thesis by auto
qed

lemma lookup_prefix: "prefix h h' \<Longrightarrow> lookup h a = Some obj \<Longrightarrow> lookup h' a = Some obj"
  by (auto simp: lookup_def prefix_def nth_append split: if_splits)

lemma value_of_prefix:
  "prefix h h' \<Longrightarrow> value_of k h v = Some t \<Longrightarrow> value_of k h' v = Some t"
  "prefix h h' \<Longrightarrow> values_of k h vs = Some ts \<Longrightarrow> values_of k h' vs = Some ts"
proof (induction k h v and k h vs arbitrary: t and ts rule: value_of_values_of.induct)
  case (6 k h a)
  then obtain obj where lk: "lookup h a = Some obj"
    by (cases "lookup h a") auto
  note lk' = lookup_prefix [OF "6.prems"(1) lk]
  show ?case
  proof (cases obj)
    case (ODict kvs)
    with "6.prems"(2) lk obtain us where
      us: "values_of k h (map snd kvs) = Some us" "t = VDict (zip (map fst kvs) us)"
      by (auto split: option.splits)
    from "6.IH"(1) [OF lk ODict "6.prems"(1) us(1)] lk' ODict us(2) show ?thesis by simp
  next
    case (OList xs)
    with "6.prems"(2) lk obtain us where
      us: "values_of k h xs = Some us" "t = VList us"
      by (auto split: option.splits)
    from "6.IH"(2) [OF lk OList "6.prems"(1) us(1)] lk' OList us(2) show ?thesis by simp
  qed
next
  case (8 k h v vs)
  then show ?case by (auto split: option.splits)
qed simp_all

text \<open>
  Claim C2. Whatever the store, the two configurations and the bound, the store
  after \<^verbatim>\<open>merge_configs\<close> is the store before it followed by new objects: every
  object that was there before the call, so both inputs and every dict and list
  nested in them, is found at its address with the same content, and every tree
  that could be read from the store before the call is read from it after.
\<close>

theorem merge_configs_pure:
  "prefix h (fst (merge_configs_heap n h g s))
   \<and> (\<forall>a obj. lookup h a = Some obj \<longrightarrow>
         lookup (fst (merge_configs_heap n h g s)) a = Some obj)
   \<and> (\<forall>k v t. value_of k h v = Some t \<longrightarrow>
         value_of k (fst (merge_configs_heap n h g s)) v = Some t)"
  using merge_configs_heap_prefix [of h n g s]
  by (blast intro: lookup_prefix value_of_prefix(1))

lemma example_merge:
  "merge_configs_heap 10 example_heap (HRef 0) (HRef 2) =
     (example_heap @
        [ODict [(''x'', HRef 6), (''y'', HInt 0), (''z'', HInt 5)],
         ODict [(''p'', HInt 1), (''q'', HInt 3), (''r'', HRef 7)],
         OList [HInt 7],
         ODict [(''x'', HRef 6), (''y'', HInt 0), (''z'', HInt 5)]],
      Some (HRef 8))"
  by code_simp

lemma example_values:
  "value_of 5 example_heap (HRef 0) =
     Some (VDict [(''x'', VDict [(''p'', VInt 1), (''q'', VInt 2)]), (''y'', VInt 0)])"
  "value_of 5 example_heap (HRef 2) =
     Some (VDict [(''z'', VInt 5), (''x'', VDict [(''q'', VInt 3), (''r'', VList [VInt 7])])])"
  by code_simp+

text \<open>The same merge with the first input as the destination changes a dict
  nested in that input: the new \<^verbatim>\<open>{}\<close> is what keeps \<^verbatim>\<open>merge_configs\<close> pure.\<close>

lemma example_in_place:
  "fst (deepmerge_heap 10 example_heap 0 2) ! 1
     = ODict [(''p'', HInt 1), (''q'', HInt 3), (''r'', HRef 5)]
   \<and> example_heap ! 1 = ODict [(''p'', HInt 1), (''q'', HInt 2)]"
  by code_simp

text \<open>On this example the tree read from the result on the store is the tree that
  \<open>merge_configs\<close> gives on trees.\<close>

lemma example_merge_agrees:
  "value_of 5 (fst (merge_configs_heap 10 example_heap (HRef 0) (HRef 2))) (HRef 8) =
     Some (VDict [(''x'', VDict [(''p'', VInt 1), (''q'', VInt 3), (''r'', VList [VInt 7])]),
                  (''y'', VInt 0), (''z'', VInt 5)])
   \<and> merge_configs
         (VDict [(''x'', VDict [(''p'', VInt 1), (''q'', VInt 2)]), (''y'', VInt 0)])
         (VDict [(''z'', VInt 5), (''x'', VDict [(''q'', VInt 3), (''r'', VList [VInt 7])])]) =
     Inr (VDict [(''x'', VDict [(''p'', VInt 1), (''q'', VInt 3), (''r'', VList [VInt 7])]),
                 (''y'', VInt 0), (''z'', VInt 5)])"
  by code_simp

theorem merge_configs_pure_witness:
  "value_of 5 (fst (merge_configs_heap 10 example_heap (HRef 0) (HRef 2))) (HRef 0) =
     Some (VDict [(''x'', VDict [(''p'', VInt 1), (''q'', VInt 2)]), (''y'', VInt 0)])
   \<and> value_of 5 (fst (merge_configs_heap 10 example_heap (HRef 0) (HRef 2))) (HRef 2) =
     Some (VDict [(''z'', VInt 5), (''x'', VDict [(''q'', VInt 3), (''r'', VList [VInt 7])])])
   \<and> snd (merge_configs_heap 10 example_heap (HRef 0) (HRef 2)) = Some (HRef 8)"
  using merge_configs_pure [of example_heap 10 "HRef 0" "HRef 2"] example_values
  by (simp add: example_merge)

subsection \<open>The merge returns\<close>

text \<open>
  The bound is no excuse: when both configurations are read from the store as
  dicts to some depth, every bound of at least that depth lets \<^verbatim>\<open>merge_configs\<close>
  return the reference to a new dict.
\<close>

lemma fresh_closed_0: "fresh_closed 0 h"
proof -
  have "fresh_val 0 v" for v by (cases v) simp_all
  then show ?thesis by (simp add: fresh_closed_def)
qed

lemma deepcopy_prefix: "deepcopy n h v = (h', r) \<Longrightarrow> prefix h h'"
  using deepcopy_frame(1) [of 0 h n v h' r] by (simp add: fresh_closed_0)

lemma deepcopy_total:
  "value_of k h v = Some t \<Longrightarrow> k \<le> n \<Longrightarrow> prefix h h2 \<Longrightarrow>
     \<exists>h' c. deepcopy n h2 v = (h', Some c)"
  "values_of k h vs = Some ts \<Longrightarrow> k \<le> n \<Longrightarrow> prefix h h2 \<Longrightarrow>
     \<exists>h' cs. deepcopy_all n h2 vs = (h', Some cs)"
proof (induction k h v and k h vs arbitrary: t n h2 and ts n h2 rule: value_of_values_of.induct)
  case (1 h v)
  then show ?case by simp
next
  case (6 k h a)
  obtain m where n: "n = Suc m" and km: "k \<le> m"
    using "6.prems"(2) by (cases n) auto
  obtain obj where lk: "lookup h a = Some obj"
    using "6.prems"(1) by (cases "lookup h a") auto
  note lk2 = lookup_prefix [OF "6.prems"(3) lk]
  show ?case
  proof (cases obj)
    case (ODict kvs)
    with "6.prems"(1) lk obtain us where "values_of k h (map snd kvs) = Some us"
      by (auto split: option.splits)
    from "6.IH"(1) [OF lk ODict this km "6.prems"(3)]
    show ?thesis using lk2 ODict n by auto
  next
    case (OList xs)
    with "6.prems"(1) lk obtain us where "values_of k h xs = Some us"
      by (auto split: option.splits)
    from "6.IH"(2) [OF lk OList this km "6.prems"(3)]
    show ?thesis using lk2 OList n by auto
  qed
next
  case (7 k h)
  then show ?case by simp
next
  case (8 k h v vs)
  from "8.prems"(1) obtain t1 ts1 where
    v: "value_of k h v = Some t1" and vs: "values_of k h vs = Some ts1"
    by (auto split: option.splits)
  from "8.IH"(1) [OF v "8.prems"(2,3)]
  obtain h1 c where d1: "deepcopy n h2 v = (h1, Some c)" by blast
  have "prefix h2 h1"
    using d1 by (rule deepcopy_prefix)
  with "8.prems"(3) have p: "prefix h h1" by (rule prefix_order.trans)
  from "8.IH"(2) [OF v vs "8.prems"(2) p]
  obtain h3 cs where "deepcopy_all n h1 vs = (h3, Some cs)" by blast
  with d1 show ?case by simp
next
  case (2 k h)
  then show ?case by (cases n) auto
next
  case (3 k h b)
  then show ?case by (cases n) auto
next
  case (4 k h i)
  then show ?case by (cases n) auto
next
  case (5 k h s)
  then show ?case by (cases n) auto
qed


lemma is_dict_prefix: "prefix h h' \<Longrightarrow> is_dict h x \<Longrightarrow> is_dict h' x"
  by (auto simp: is_dict_def split: option.splits hobj.splits dest: lookup_prefix)

lemma is_dict_setitem: "is_dict h x \<Longrightarrow> is_dict (setitem h dst key c) x"
  by (cases "x = dst")
     (auto simp: is_dict_def setitem_def lookup_def split: option.splits hobj.splits if_splits)

lemma setitem_copy_total:
  assumes "value_of k h0 v = Some t" and "k \<le> n" and "prefix h0 h"
  shows "\<exists>h'. setitem_copy n h dst key v = (h', True) \<and> (\<forall>x. is_dict h x \<longrightarrow> is_dict h' x)"
proof -
  from deepcopy_total(1) [OF assms] obtain h1 c where d: "deepcopy n h v = (h1, Some c)"
    by blast
  have "prefix h h1" using d by (rule deepcopy_prefix)
  then have "\<forall>x. is_dict h x \<longrightarrow> is_dict (setitem h1 dst key c) x"
    by (auto intro: is_dict_setitem is_dict_prefix)
  with d show ?thesis by (simp add: setitem_copy_def)
qed

lemma value_of_take_dict:
  assumes "value_of k (take n0 h) (HRef a) = Some t"
  shows "\<exists>k' obj. k = Suc k' \<and> lookup h a = Some obj \<and> a < n0
           \<and> (\<exists>ts. values_of k' (take n0 h) (vals_of obj) = Some ts)"
proof -
  obtain k' where k: "k = Suc k'" using assms by (cases k) auto
  obtain obj where lk: "lookup (take n0 h) a = Some obj"
    using assms k by (cases "lookup (take n0 h) a") auto
  then have a: "a < n0" "lookup h a = Some obj"
    by (auto simp: lookup_def split: if_splits)
  have "\<exists>ts. values_of k' (take n0 h) (vals_of obj) = Some ts"
    using assms k lk by (cases obj) (auto split: option.splits)
  with k a show ?thesis by blast
qed


lemma deepmerge_total:
  "n0 \<le> dst \<Longrightarrow> n0 \<le> length h \<Longrightarrow> fresh_closed n0 h \<Longrightarrow> is_dict h dst \<Longrightarrow>
   value_of k (take n0 h) (HRef src) = Some t \<Longrightarrow> is_dict h src \<Longrightarrow> k \<le> n \<Longrightarrow>
     \<exists>h'. deepmerge_heap n h dst src = (h', True) \<and> (\<forall>x. is_dict h x \<longrightarrow> is_dict h' x)"
  "n0 \<le> dst \<Longrightarrow> n0 \<le> length h \<Longrightarrow> fresh_closed n0 h \<Longrightarrow> is_dict h dst \<Longrightarrow>
   values_of k (take n0 h) (map snd items) = Some ts \<Longrightarrow> k \<le> n \<Longrightarrow>
     \<exists>h''. deepmerge_keys n h dst items = (h'', True) \<and> (\<forall>x. is_dict h x \<longrightarrow> is_dict h'' x)"
proof (induction n h dst src and n h dst items arbitrary: k t and k ts
       rule: deepmerge_heap_deepmerge_keys.induct)
  case (1 h dst src)
  then show ?case by (cases k) auto
next
  case (2 n h dst src)
  from value_of_take_dict [OF "2.prems"(5)] obtain k' obj ts where
    k: "k = Suc k'" and lk: "lookup h src = Some obj"
    and vs: "values_of k' (take n0 h) (vals_of obj) = Some ts" by blast
  from "2.prems"(6) lk obtain kvs where obj: "obj = ODict kvs"
    by (cases obj) (auto simp: is_dict_def)
  have "k' \<le> n" using k "2.prems"(7) by simp
  from "2.IH" [OF lk obj "2.prems"(1,2,3,4) _ this, of ts] vs obj lk
  show ?case by simp
next
  case (3 n h dst)
  then show ?case by simp
next
  case (4 n h dst key v rest)
  from "4.prems"(4) obtain d where lk: "lookup h dst = Some (ODict d)"
    by (auto simp: is_dict_def split: option.splits hobj.splits)
  from "4.prems"(5) obtain t1 ts1 where
    v: "value_of k (take n0 h) v = Some t1"
    and vs: "values_of k (take n0 h) (map snd rest) = Some ts1"
    by (auto split: option.splits)
  have pre: "prefix (take n0 h) h" by (rule take_is_prefix)
  define step where "step =
    (case (map_of d key, v) of
       (Some (HRef a), HRef b) \<Rightarrow>
         if is_dict h a \<and> is_dict h b then deepmerge_heap n h a b
         else if a = b then (h, True)
         else setitem_copy n h dst key v
     | _ \<Rightarrow> setitem_copy n h dst key v)"
  have copy: "\<exists>h1. setitem_copy n h dst key v = (h1, True) \<and> (\<forall>x. is_dict h x \<longrightarrow> is_dict h1 x)"
    by (rule setitem_copy_total [OF v "4.prems"(6) pre])
  have "\<exists>h1. step = (h1, True) \<and> (\<forall>x. is_dict h x \<longrightarrow> is_dict h1 x)"
  proof (cases "\<exists>a b. map_of d key = Some (HRef a) \<and> v = HRef b")
    case True
    then obtain a b where ab: "map_of d key = Some (HRef a)" "v = HRef b" by blast
    show ?thesis
    proof (cases "is_dict h a \<and> is_dict h b")
      case dicts: True
      have "HRef a \<in> set (vals_of (ODict d))"
        using ab(1) by (auto dest: map_of_SomeD intro: rev_image_eqI)
      with fresh_closed_vals [OF "4.prems"(3,1) lk] have na: "n0 \<le> a" by auto
      from dicts have da: "is_dict h a" and db: "is_dict h b" by simp_all
      from "4.IH"(1) [OF lk refl refl ab(1) refl ab(2) dicts na "4.prems"(2,3) da _ db "4.prems"(6),
                      of t1] v ab(2)
      have "\<exists>h1. deepmerge_heap n h a b = (h1, True) \<and> (\<forall>x. is_dict h x \<longrightarrow> is_dict h1 x)"
        by simp
      moreover have "step = deepmerge_heap n h a b"
        using ab dicts by (simp add: step_def)
      ultimately show ?thesis by simp
    next
      case False
      then have "step = (if a = b then (h, True) else setitem_copy n h dst key v)"
        using ab by (auto simp: step_def)
      with copy show ?thesis by auto
    qed
  next
    case False
    then have "step = setitem_copy n h dst key v"
      by (auto simp: step_def split: option.splits hval.splits)
    with copy show ?thesis by simp
  qed
  then obtain h1 where st: "step = (h1, True)"
    and kept: "\<forall>x. is_dict h x \<longrightarrow> is_dict h1 x" by blast
  have fr1: "take n0 h1 = take n0 h \<and> length h \<le> length h1 \<and> fresh_closed n0 h1"
  proof -
    have "deepmerge_keys n h dst [(key, v)] = (h1, True)"
      using lk st by (simp add: step_def)
    from deepmerge_frame(2) [OF "4.prems"(1,2,3) this] show ?thesis .
  qed
  have n1: "n0 \<le> length h1" using fr1 "4.prems"(2) by simp
  have d1: "is_dict h1 dst" using kept "4.prems"(4) by simp
  have vs1: "values_of k (take n0 h1) (map snd rest) = Some ts1" using vs fr1 by simp
  have eq: "(h1, True) = (case map_of d key of None \<Rightarrow> setitem_copy n h dst key v
            | Some (HRef a) \<Rightarrow>
                (case v of
                HRef b \<Rightarrow>
                  if is_dict h a \<and> is_dict h b then deepmerge_heap n h a b
                  else if a = b then (h, True)
                       else setitem_copy n h dst key v
                | _ \<Rightarrow> setitem_copy n h dst key v)
            | Some _ \<Rightarrow> setitem_copy n h dst key v)"
    using st by (simp add: step_def)
  from "4.IH"(2) [OF lk refl eq refl "4.prems"(1) n1 _ d1 vs1 "4.prems"(6)] fr1
  obtain h2 where r: "deepmerge_keys n h1 dst rest = (h2, True)"
    and kept2: "\<forall>x. is_dict h1 x \<longrightarrow> is_dict h2 x" by blast
  have "deepmerge_keys n h dst ((key, v) # rest) = (h2, True)"
    using lk st r by (simp add: step_def)
  with kept kept2 show ?case by simp
qed


lemma value_of_VDict:
  assumes "value_of k h v = Some (VDict kvs)"
  shows "\<exists>a. v = HRef a \<and> is_dict h a"
proof -
  obtain k' where k: "k = Suc k'" using assms by (cases k) auto
  show ?thesis
  proof (cases v)
    case (HRef a)
    with assms k show ?thesis
      by (auto simp: is_dict_def split: option.splits hobj.splits)
  qed (use assms k in simp_all)
qed

lemma merge_configs_heap_returns:
  assumes g: "value_of k h g = Some (VDict general)"
    and s: "value_of k h s = Some (VDict specific)"
    and kn: "k \<le> n"
  shows "\<exists>r. snd (merge_configs_heap n h g s) = Some (HRef r)"
proof -
  define n0 where "n0 = length h"
  define h0 where "h0 = h @ [ODict []]"
  from value_of_VDict [OF g] obtain ga where ga: "g = HRef ga" "is_dict h ga" by blast
  from value_of_VDict [OF s] obtain sa where sa: "s = HRef sa" "is_dict h sa" by blast
  have p0: "prefix h h0" by (simp add: h0_def)
  have t0: "take n0 h0 = h" by (simp add: h0_def n0_def)
  have l0: "n0 \<le> length h0" by (simp add: h0_def n0_def)
  have fc0: "fresh_closed n0 h0"
    unfolding h0_def n0_def fresh_closed_def by (auto simp: nth_append)
  have d0: "is_dict h0 n0" by (simp add: is_dict_def lookup_def h0_def n0_def)
  have dg0: "is_dict h0 ga" using ga(2) p0 by (rule is_dict_prefix [rotated])
  have ds0: "is_dict h0 sa" using sa(2) p0 by (rule is_dict_prefix [rotated])
  have vg: "value_of k (take n0 h0) (HRef ga) = Some (VDict general)"
    using g ga(1) t0 by simp
  from deepmerge_total(1) [OF order_refl l0 fc0 d0 vg dg0 kn]
  obtain h1 where m1: "deepmerge_heap n h0 n0 ga = (h1, True)"
    and k1: "\<forall>x. is_dict h0 x \<longrightarrow> is_dict h1 x" by blast
  from deepmerge_frame(1) [OF order_refl l0 fc0 m1]
  have f1: "take n0 h1 = h" "length h0 \<le> length h1" "fresh_closed n0 h1"
    using t0 by simp_all
  have l1: "n0 \<le> length h1" using f1(2) l0 by simp
  have d1: "is_dict h1 n0" and ds1: "is_dict h1 sa" using k1 d0 ds0 by simp_all
  have vs: "value_of k (take n0 h1) (HRef sa) = Some (VDict specific)"
    using s sa(1) f1(1) by simp
  from deepmerge_total(1) [OF order_refl l1 f1(3) d1 vs ds1 kn]
  obtain h2 where m2: "deepmerge_heap n h1 n0 sa = (h2, True)"
    and k2: "\<forall>x. is_dict h1 x \<longrightarrow> is_dict h2 x" by blast
  from k2 d1 have "is_dict h2 n0" by simp
  then obtain merged where lk: "lookup h2 n0 = Some (ODict merged)"
    by (auto simp: is_dict_def split: option.splits hobj.splits)
  have s1: "deepmerge_source n h0 n0 g = (h1, True)"
    using m1 ga(1) dg0 by (auto simp: is_dict_def split: option.splits hobj.splits)
  have s2: "deepmerge_source n h1 n0 s = (h2, True)"
    using m2 sa(1) ds1 by (auto simp: is_dict_def split: option.splits hobj.splits)
  have "snd (merge_configs_heap n h g s) = Some (HRef (length h2))"
    using s1 s2 lk by (simp add: merge_configs_heap_def Let_def h0_def n0_def)
  then show ?thesis by blast
qed

end
